theory Spec2Isabelle
  imports Main "HOL-Library.Multiset" "HOL-Library.AList"
begin

section \<open>Hierholzer's algorithm (hierholzer.py): the data\<close>

text \<open>
  Vertex labels are Python strings. The adjacency structure \<open>adj_list\<close> is a Python
  dictionary from a vertex label to the Python list of its neighbours; it is modelled as an
  association list (a dictionary keeps its keys in insertion order and has no duplicate
  keys), read with \<open>map_of\<close> and written with \<open>AList.update\<close>. In this model of
  values every vertex has a list of its own; the section on object references makes the
  list objects and their identities explicit.
\<close>

type_synonym vertex = string

type_synonym adj = "(vertex \<times> vertex list) list"

text \<open>
  Modelled from the spec: the class \<open>Graph\<close>. It is defined in the module \<open>graph\<close>,
  which \<open>hierholzer.py\<close> imports and which is not among the sources. The specification
  (sections 3 and 6) gives a graph a list of vertex labels and, for each vertex, a multiset
  of neighbour labels in which a repeated entry is a parallel edge; its section 9 has the
  neighbour picked by a pop from the end of a per-vertex list. \<open>hierholzer.py\<close> reads
  the two attributes \<open>g.vertices\<close> and \<open>g.adj_list\<close>, takes \<open>vertices[0]\<close>, and
  calls \<open>pop()\<close>, \<open>remove()\<close> and \<open>len()\<close> on \<open>adj_list[v]\<close>: the neighbour
  collections are Python lists.
\<close>

record graph =
  vertices :: "vertex list"
  adj_list :: adj

text \<open>The exceptions the list and dictionary operations of the source can raise.\<close>

datatype py_error = IndexError | KeyError | ValueError

section \<open>The list and dictionary operations of Python used by the source\<close>

text \<open>\<open>d[k]\<close>: raises \<open>KeyError\<close> for a missing key.\<close>

definition dict_get :: "adj \<Rightarrow> vertex \<Rightarrow> py_error + vertex list" where
  "dict_get d k = (case map_of d k of None \<Rightarrow> Inl KeyError | Some xs \<Rightarrow> Inr xs)"

text \<open>\<open>xs.pop()\<close>: removes and returns the last element, \<open>IndexError\<close> on an empty list.\<close>

definition list_pop :: "vertex list \<Rightarrow> py_error + (vertex \<times> vertex list)" where
  "list_pop xs = (if xs = [] then Inl IndexError else Inr (last xs, butlast xs))"

text \<open>\<open>xs.remove(x)\<close>: removes the first occurrence of \<open>x\<close>, \<open>ValueError\<close> if there is
  none.\<close>

definition list_remove :: "vertex \<Rightarrow> vertex list \<Rightarrow> py_error + vertex list" where
  "list_remove x xs = (if x \<in> set xs then Inr (remove1 x xs) else Inl ValueError)"

text \<open>\<open>xs.insert(i, x)\<close> for a non-negative \<open>i\<close>: an index beyond the end appends.\<close>

definition list_insert :: "nat \<Rightarrow> vertex \<Rightarrow> vertex list \<Rightarrow> vertex list" where
  "list_insert i x xs = take i xs @ x # drop i xs"

section \<open>Sub-tour extraction: \<open>hierholzer_tour\<close>\<close>

text \<open>
  The two statements
  \<^verbatim>\<open>next_vertex = adj_list[current_vertex].pop()\<close> and
  \<^verbatim>\<open>adj_list[next_vertex].remove(current_vertex)\<close>
  occur twice in \<open>hierholzer_tour\<close> (lines 28-29 before the loop and lines 33-34 in its
  body). \<open>take_edge\<close> is that pair of statements: it returns the neighbour picked and the
  adjacency structure after both removals, or the exception raised.
\<close>

definition take_edge :: "adj \<Rightarrow> vertex \<Rightarrow> py_error + (vertex \<times> adj)" where
  "take_edge al cur =
     (case dict_get al cur of
        Inl e \<Rightarrow> Inl e
      | Inr xs \<Rightarrow>
          (case list_pop xs of
             Inl e \<Rightarrow> Inl e
           | Inr (nxt, xs') \<Rightarrow>
               (let al1 = AList.update cur xs' al in
                case dict_get al1 nxt of
                  Inl e \<Rightarrow> Inl e
                | Inr ys \<Rightarrow>
                    (case list_remove cur ys of
                       Inl e \<Rightarrow> Inl e
                     | Inr ys' \<Rightarrow> Inr (nxt, AList.update nxt ys' al1)))))"

text \<open>The number of entries in all adjacency lists; every edge taken lowers it.\<close>

definition slots :: "adj \<Rightarrow> nat" where
  "slots al = sum_list (map (\<lambda>p. length (snd p)) al)"

lemma slots_update:
  "map_of al k = Some xs \<Longrightarrow> slots (AList.update k ys al) + length xs = slots al + length ys"
  by (induction al) (auto simp: slots_def)

lemma take_edge_slots:
  assumes "take_edge al cur = Inr (nxt, al')"
  shows "slots al' + 2 = slots al"
proof -
  from assms obtain xs where xs: "map_of al cur = Some xs" "xs \<noteq> []" "nxt = last xs"
    by (auto simp: take_edge_def dict_get_def list_pop_def Let_def
        split: option.splits sum.splits if_splits)
  define al1 where "al1 = AList.update cur (butlast xs) al"
  from assms xs obtain ys where ys: "map_of al1 nxt = Some ys" "cur \<in> set ys"
    "al' = AList.update nxt (remove1 cur ys) al1"
    by (auto simp: take_edge_def dict_get_def list_pop_def list_remove_def Let_def al1_def
        split: option.splits sum.splits if_splits)
  have "slots al1 + length xs = slots al + length (butlast xs)"
    unfolding al1_def by (rule slots_update [OF xs(1)])
  moreover have "slots al' + length ys = slots al1 + length (remove1 cur ys)"
    unfolding ys(3) by (rule slots_update [OF ys(1)])
  moreover have "length (remove1 cur ys) + 1 = length ys"
    using ys(2) by (simp add: length_remove1) (cases ys; simp)
  moreover have "length (butlast xs) + 1 = length xs"
    using xs(2) by simp
  ultimately show ?thesis by linarith
qed

text \<open>
  The \<open>while\<close> loop of \<open>hierholzer_tour\<close> (lines 31-35). The state is the adjacency
  structure, \<open>next_vertex\<close> and \<open>tour\<close>; \<open>start_vertex\<close> does not change.
\<close>

function tour_loop ::
  "adj \<Rightarrow> vertex \<Rightarrow> vertex \<Rightarrow> vertex list \<Rightarrow> py_error + (vertex list \<times> adj)" where
  "tour_loop al start_vertex next_vertex tour =
     (if next_vertex \<noteq> start_vertex then
        (case take_edge al next_vertex of
           Inl e \<Rightarrow> Inl e
         | Inr (nxt, al') \<Rightarrow> tour_loop al' start_vertex nxt (tour @ [nxt]))
      else Inr (tour, al))"
  by pat_completeness auto
termination
proof (relation "measure (\<lambda>(al, s, n, t). slots al)")
  show "wf (measure (\<lambda>(al, s, n, t). slots al))" by simp
next
  fix al :: adj and start_vertex next_vertex :: vertex and tour :: "vertex list"
    and x2 :: "vertex \<times> adj" and x1 :: vertex and y :: adj
  assume "take_edge al next_vertex = Inr x2" "(x1, y) = x2"
  then have "slots y + 2 = slots al"
    using take_edge_slots [of al next_vertex x1 y] by simp
  then show "((y, start_vertex, x1, tour @ [x1]), (al, start_vertex, next_vertex, tour))
      \<in> measure (\<lambda>(al, s, n, t). slots al)"
    by simp
qed

declare tour_loop.simps [simp del]

text \<open>\<open>hierholzer_tour\<close> returns the walk; the adjacency structure it has mutated is
  returned with it.\<close>

definition hierholzer_tour :: "adj \<Rightarrow> vertex \<Rightarrow> py_error + (vertex list \<times> adj)" where
  "hierholzer_tour al start_vertex =
     (case take_edge al start_vertex of
        Inl e \<Rightarrow> Inl e
      | Inr (next_vertex, al') \<Rightarrow>
          tour_loop al' start_vertex next_vertex [start_vertex, next_vertex])"

lemma tour_loop_slots:
  "tour_loop al s n t = Inr (t', al') \<Longrightarrow> slots al' \<le> slots al"
proof (induction al s n t rule: tour_loop.induct)
  case (1 al s n t)
  show ?case
  proof (cases "n \<noteq> s")
    case False
    with "1.prems" show ?thesis unfolding tour_loop.simps [of al s n t] by simp
  next
    case True
    with "1.prems" obtain nxt al1 where
      st: "take_edge al n = Inr (nxt, al1)" and
      rest: "tour_loop al1 s nxt (t @ [nxt]) = Inr (t', al')"
      unfolding tour_loop.simps [of al s n t] by (auto split: sum.splits)
    from "1.IH" [OF True st refl rest] take_edge_slots [OF st]
    show ?thesis by simp
  qed
qed

lemma hierholzer_tour_slots:
  assumes "hierholzer_tour al s = Inr (t, al')"
  shows "slots al' < slots al"
proof -
  from assms obtain nxt al1 where
    st: "take_edge al s = Inr (nxt, al1)" and
    rest: "tour_loop al1 s nxt [s, nxt] = Inr (t, al')"
    by (auto simp: hierholzer_tour_def split: sum.splits)
  from tour_loop_slots [OF rest] take_edge_slots [OF st] show ?thesis by simp
qed

section \<open>Tour assembly: \<open>hierholzer\<close>\<close>

text \<open>
  The inner \<open>for\<close> loop (lines 55-61) runs over \<open>enumerate(reversed(v_tour))\<close>:
  \<open>us\<close> is what is left of the reversed sub-tour, \<open>u_index\<close> the running index and
  \<open>n\<close> is \<open>len(v_tour)\<close>. The comparison with \<open>len(v_tour) - 1\<close> is one of Python
  integers.
\<close>

fun insert_loop :: "vertex list \<Rightarrow> nat \<Rightarrow> nat \<Rightarrow> vertex list \<Rightarrow> nat \<Rightarrow> vertex list" where
  "insert_loop tour v_index n [] u_index = tour"
| "insert_loop tour v_index n (u # us) u_index =
     (if int u_index = int n - 1 then insert_loop tour v_index n us (u_index + 1)
      else insert_loop (list_insert (v_index + 1) u tour) v_index n us (u_index + 1))"

definition splice_in :: "vertex list \<Rightarrow> nat \<Rightarrow> vertex list \<Rightarrow> vertex list" where
  "splice_in tour v_index v_tour = insert_loop tour v_index (length v_tour) (rev v_tour) 0"

text \<open>
  The outer \<open>for\<close> loop (lines 48-61) runs over \<open>enumerate(tour)\<close> while its body
  inserts into \<open>tour\<close>. Python's list iterator keeps a position and stops when the
  position reaches the current length of the list, so the loop also visits the elements
  inserted behind the position: the state is the adjacency structure, the tour and the
  position \<open>v_index\<close>. The two \<open>print\<close> calls write the tours found to the standard
  output and are left out.
\<close>

function scan_loop :: "adj \<Rightarrow> vertex list \<Rightarrow> nat \<Rightarrow> py_error + (vertex list \<times> adj)" where
  "scan_loop al tour v_index =
     (if v_index < length tour then
        (case dict_get al (tour ! v_index) of
           Inl e \<Rightarrow> Inl e
         | Inr ns \<Rightarrow>
             if length ns \<noteq> 0 then
               (case hierholzer_tour al (tour ! v_index) of
                  Inl e \<Rightarrow> Inl e
                | Inr (v_tour, al') \<Rightarrow>
                    scan_loop al' (splice_in tour v_index v_tour) (v_index + 1))
             else scan_loop al tour (v_index + 1))
      else Inr (tour, al))"
  by pat_completeness auto
termination
proof (relation "measures [\<lambda>(al, t, i). slots al, \<lambda>(al, t, i). length t - i]")
  show "wf (measures [\<lambda>(al, t, i). slots al, \<lambda>(al, t, i). length t - i])"
    by simp
next
  fix al :: adj and tour :: "vertex list" and v_index :: nat and x2 :: "vertex list"
    and x2a :: "vertex list \<times> adj" and x1 :: "vertex list" and y :: adj
  assume "hierholzer_tour al (tour ! v_index) = Inr x2a" "(x1, y) = x2a"
  then have "slots y < slots al"
    using hierholzer_tour_slots [of al "tour ! v_index" x1 y] by simp
  then show "((y, splice_in tour v_index x1, v_index + 1), (al, tour, v_index))
      \<in> measures [\<lambda>(al, t, i). slots al, \<lambda>(al, t, i). length t - i]"
    by simp
next
  fix al :: adj and tour :: "vertex list" and v_index :: nat
  assume "v_index < length tour"
  then show "((al, tour, v_index + 1), (al, tour, v_index))
      \<in> measures [\<lambda>(al, t, i). slots al, \<lambda>(al, t, i). length t - i]"
    by simp
qed

declare scan_loop.simps [simp del]

text \<open>
  \<open>hierholzer\<close> (lines 38-63). \<open>copy.deepcopy\<close> gives the function its own adjacency
  structure; in this value model the copy is the value itself (the object identities are
  modelled in the last section). \<open>vertices[0]\<close> raises \<open>IndexError\<close> on an empty list.
  \<open>hierholzer_run\<close> also returns the adjacency structure the loop ends with, which the
  source drops.
\<close>

definition hierholzer_run :: "graph \<Rightarrow> py_error + (vertex list \<times> adj)" where
  "hierholzer_run g =
     (let al = adj_list g in
      case vertices g of
        [] \<Rightarrow> Inl IndexError
      | v0 # _ \<Rightarrow>
          (case hierholzer_tour al v0 of
             Inl e \<Rightarrow> Inl e
           | Inr (tour, al') \<Rightarrow> scan_loop al' tour 0))"

definition hierholzer :: "graph \<Rightarrow> py_error + vertex list" where
  "hierholzer g = (case hierholzer_run g of Inl e \<Rightarrow> Inl e | Inr (tour, al) \<Rightarrow> Inr tour)"

section \<open>The graphs the algorithm is specified for\<close>

text \<open>The neighbours stored for a vertex; a label that is no key of the dictionary has
  none.\<close>

definition nbrs :: "adj \<Rightarrow> vertex \<Rightarrow> vertex list" where
  "nbrs al v = (case map_of al v of None \<Rightarrow> [] | Some xs \<Rightarrow> xs)"

text \<open>
  The adjacency structure is symmetric: \<open>v\<close> is stored for \<open>u\<close> as often as \<open>u\<close> is
  stored for \<open>v\<close>. The statement for all labels includes that every neighbour is a key.
\<close>

definition symmetric :: "adj \<Rightarrow> bool" where
  "symmetric al \<longleftrightarrow> (\<forall>u v. count_list (nbrs al u) v = count_list (nbrs al v) u)"

text \<open>A self-loop, where a graph has one, is stored as two entries of the vertex's own
  list, as it counts twice in the degree. A graph without self-loops satisfies this.\<close>

definition loops_paired :: "adj \<Rightarrow> bool" where
  "loops_paired al \<longleftrightarrow> (\<forall>u. even (count_list (nbrs al u) u))"

text \<open>A well-formed adjacency store: a dictionary (no key twice), symmetric.\<close>

definition store_ok :: "adj \<Rightarrow> bool" where
  "store_ok al \<longleftrightarrow> distinct (map fst al) \<and> symmetric al \<and> loops_paired al"

text \<open>Every vertex has even (remaining) degree.\<close>

definition even_degrees :: "adj \<Rightarrow> bool" where
  "even_degrees al \<longleftrightarrow> (\<forall>u. even (length (nbrs al u)))"

text \<open>Connected: every key is reachable from every key along stored edges.\<close>

definition adjacent :: "adj \<Rightarrow> (vertex \<times> vertex) set" where
  "adjacent al = {(u, v). v \<in> set (nbrs al u)}"

definition connected :: "adj \<Rightarrow> bool" where
  "connected al \<longleftrightarrow> (\<forall>u \<in> set (map fst al). \<forall>v \<in> set (map fst al). (u, v) \<in> (adjacent al)\<^sup>*)"

text \<open>
  A valid input, as the header of \<open>hierholzer.py\<close> states it: an undirected graph,
  connected, all vertices of even degree. The vertex list names the keys of the
  adjacency dictionary.
\<close>

definition valid_graph :: "graph \<Rightarrow> bool" where
  "valid_graph g \<longleftrightarrow>
     set (vertices g) = set (map fst (adj_list g)) \<and> store_ok (adj_list g) \<and>
     even_degrees (adj_list g) \<and> connected (adj_list g)"

text \<open>
  The edge multiset of the graph, every undirected edge \<open>{u, v}\<close> being the two arcs
  \<open>(u, v)\<close> and \<open>(v, u)\<close> (the symmetric edge multiset), and the number of edges.
\<close>

definition arc_list :: "adj \<Rightarrow> (vertex \<times> vertex) list" where
  "arc_list al = concat (map (\<lambda>(u, ns). map (Pair u) ns) al)"

definition arcs :: "adj \<Rightarrow> (vertex \<times> vertex) multiset" where
  "arcs al = mset (arc_list al)"

definition num_edges :: "graph \<Rightarrow> nat" where
  "num_edges g = slots (adj_list g) div 2"

text \<open>
  The consecutive pairs of a tour, and a list of pairs taken as undirected edges: each
  pair counts in both directions.
\<close>

definition tour_pairs :: "vertex list \<Rightarrow> (vertex \<times> vertex) list" where
  "tour_pairs t = zip t (tl t)"

definition undirected :: "(vertex \<times> vertex) list \<Rightarrow> (vertex \<times> vertex) multiset" where
  "undirected ps = mset ps + mset (map prod.swap ps)"

text \<open>The consecutive pairs of a tour together with the pair that wraps from its last
  element to its first, as the specification words the edge-completeness property.\<close>

definition tour_pairs_wrap :: "vertex list \<Rightarrow> (vertex \<times> vertex) list" where
  "tour_pairs_wrap t = zip t (rotate1 t)"

text \<open>The adjacency structures that a run of edge removals (each the pair of statements
  \<open>take_edge\<close>) leads to; \<open>hierholzer_tour\<close> changes the structure in no other way.\<close>

inductive removals :: "adj \<Rightarrow> adj \<Rightarrow> bool" where
  removals_none: "removals al al"
| removals_step: "removals al al1 \<Longrightarrow> take_edge al1 cur = Inr (nxt, al2) \<Longrightarrow> removals al al2"

section \<open>Taking one edge\<close>

lemma nbrs_update: "nbrs (AList.update k xs al) w = (if w = k then xs else nbrs al w)"
  by (simp add: nbrs_def update_conv')

lemma nbrs_Some: "map_of al v = Some xs \<Longrightarrow> nbrs al v = xs"
  by (simp add: nbrs_def)

lemma nbrs_nonempty_key: "nbrs al v \<noteq> [] \<Longrightarrow> \<exists>xs. map_of al v = Some xs \<and> xs \<noteq> []"
  by (auto simp: nbrs_def split: option.splits)

lemma nbrs_not_key: "v \<notin> set (map fst al) \<Longrightarrow> nbrs al v = []"
proof -
  assume "v \<notin> set (map fst al)"
  then have "map_of al v = None" by (simp add: map_of_eq_None_iff)
  then show ?thesis by (simp add: nbrs_def)
qed

lemma take_edge_Inr_iff:
  "take_edge al cur = Inr (nxt, al') \<longleftrightarrow>
     (\<exists>xs ys. map_of al cur = Some xs \<and> xs \<noteq> [] \<and> nxt = last xs \<and>
        map_of (AList.update cur (butlast xs) al) nxt = Some ys \<and> cur \<in> set ys \<and>
        al' = AList.update nxt (remove1 cur ys) (AList.update cur (butlast xs) al))"
  by (auto simp: take_edge_def dict_get_def list_pop_def list_remove_def Let_def
      split: option.splits sum.splits if_splits)

lemma take_edge_keys:
  assumes "take_edge al cur = Inr (nxt, al')"
  shows "map fst al' = map fst al"
proof -
  from assms obtain xs ys where
    xs: "map_of al cur = Some xs" and
    ys: "map_of (AList.update cur (butlast xs) al) nxt = Some ys" and
    al': "al' = AList.update nxt (remove1 cur ys) (AList.update cur (butlast xs) al)"
    unfolding take_edge_Inr_iff by blast
  have 1: "cur \<in> set (map fst al)"
    using xs by (metis map_of_eq_None_iff option.distinct(1) set_map)
  then have 2: "map fst (AList.update cur (butlast xs) al) = map fst al"
    by (simp add: update_keys)
  have "nxt \<in> set (map fst (AList.update cur (butlast xs) al))"
    using ys by (metis map_of_eq_None_iff option.distinct(1) set_map)
  then show ?thesis unfolding al' using 2 by (simp add: update_keys)
qed

lemma take_edge_in_keys:
  assumes "take_edge al cur = Inr (nxt, al')"
  shows "cur \<in> set (map fst al) \<and> nxt \<in> set (map fst al)"
proof -
  from assms obtain xs ys where
    xs: "map_of al cur = Some xs" and
    ys: "map_of (AList.update cur (butlast xs) al) nxt = Some ys"
    unfolding take_edge_Inr_iff by blast
  have 1: "cur \<in> fst ` set al"
    using xs by (metis map_of_eq_None_iff option.distinct(1))
  have "nxt \<in> fst ` set (AList.update cur (butlast xs) al)"
    using ys by (metis map_of_eq_None_iff option.distinct(1))
  then have "nxt \<in> fst ` set al"
    using 1 by (auto simp: dom_update)
  with 1 show ?thesis by simp
qed

lemma take_edge_nbrs:
  assumes "take_edge al cur = Inr (nxt, al')"
  shows "mset (nbrs al w) =
           mset (nbrs al' w) + (if w = cur then {#nxt#} else {#}) + (if w = nxt then {#cur#} else {#})"
proof -
  from assms obtain xs ys where
    xs: "map_of al cur = Some xs" "xs \<noteq> []" "nxt = last xs" and
    ys: "map_of (AList.update cur (butlast xs) al) nxt = Some ys" "cur \<in> set ys" and
    al': "al' = AList.update nxt (remove1 cur ys) (AList.update cur (butlast xs) al)"
    unfolding take_edge_Inr_iff by blast
  have "mset (butlast xs @ [last xs]) = mset (butlast xs) + {#last xs#}"
    by simp
  then have xs_split: "mset xs = mset (butlast xs) + {#nxt#}"
    using xs(2,3) by simp
  have ys_split: "mset ys = mset (remove1 cur ys) + {#cur#}"
    using ys(2) by simp
  have nx: "nbrs al cur = xs" using xs(1) by (rule nbrs_Some)
  have ny: "nbrs (AList.update cur (butlast xs) al) nxt = ys" using ys(1) by (rule nbrs_Some)
  show ?thesis
  proof (cases "nxt = cur")
    case True
    with ny have "ys = butlast xs" by (simp add: nbrs_update)
    with True xs_split ys_split nx show ?thesis
      by (simp add: al' nbrs_update)
  next
    case False
    with ny have "nbrs al nxt = ys" by (simp add: nbrs_update)
    with False xs_split ys_split nx show ?thesis
      by (auto simp add: al' nbrs_update)
  qed
qed

lemma take_edge_succeeds:
  assumes ne: "nbrs al cur \<noteq> []"
    and other: "last (nbrs al cur) \<noteq> cur \<Longrightarrow> cur \<in> set (nbrs al (last (nbrs al cur)))"
    and loop: "last (nbrs al cur) = cur \<Longrightarrow> 2 \<le> count_list (nbrs al cur) cur"
  shows "\<exists>al'. take_edge al cur = Inr (last (nbrs al cur), al')"
proof -
  from ne obtain xs where xs: "map_of al cur = Some xs" "xs \<noteq> []"
    using nbrs_nonempty_key by blast
  then have nx: "nbrs al cur = xs" by (simp add: nbrs_def)
  let ?al1 = "AList.update cur (butlast xs) al"
  have "\<exists>ys. map_of ?al1 (last xs) = Some ys \<and> cur \<in> set ys"
  proof (cases "last xs = cur")
    case True
    from loop True nx have "2 \<le> count_list xs cur" by simp
    moreover have "count_list (butlast xs @ [last xs]) cur = count_list (butlast xs) cur + 1"
      using True by simp
    then have "count_list xs cur = count_list (butlast xs) cur + 1"
      using xs(2) by simp
    ultimately have "count_list (butlast xs) cur \<noteq> 0"
      by linarith
    then have "cur \<in> set (butlast xs)"
      by (simp add: count_list_0_iff)
    with True show ?thesis by (simp add: update_conv')
  next
    case False
    from other False nx have "cur \<in> set (nbrs al (last xs))" by simp
    then obtain ys where "map_of al (last xs) = Some ys" "cur \<in> set ys"
      by (cases "map_of al (last xs)") (auto simp: nbrs_def)
    with False show ?thesis by (simp add: update_conv')
  qed
  then show ?thesis
    unfolding take_edge_Inr_iff using xs nx by auto
qed

lemma take_edge_count:
  assumes "take_edge al cur = Inr (nxt, al')"
  shows "count_list (nbrs al u) v =
           count_list (nbrs al' u) v + (if u = cur \<and> v = nxt then 1 else 0)
             + (if u = nxt \<and> v = cur then 1 else 0)"
proof -
  let ?A = "if u = cur then {#nxt#} else {#}"
  let ?B = "if u = nxt then {#cur#} else {#}"
  have "count_list (nbrs al u) v = count (mset (nbrs al u)) v"
    by (simp only: count_mset)
  also have "\<dots> = count (mset (nbrs al' u) + ?A + ?B) v"
    by (simp only: take_edge_nbrs [OF assms, of u])
  also have "\<dots> = count (mset (nbrs al' u)) v + count ?A v + count ?B v"
    by (simp only: count_union)
  also have "count (mset (nbrs al' u)) v = count_list (nbrs al' u) v"
    by (simp only: count_mset)
  also have "count ?A v = (if u = cur \<and> v = nxt then 1 else 0)"
    by simp
  also have "count ?B v = (if u = nxt \<and> v = cur then 1 else 0)"
    by simp
  finally show ?thesis .
qed

lemma take_edge_length:
  assumes "take_edge al cur = Inr (nxt, al')"
  shows "length (nbrs al u) =
           length (nbrs al' u) + (if u = cur then 1 else 0) + (if u = nxt then 1 else 0)"
proof -
  have "size (mset (nbrs al u)) =
      size (mset (nbrs al' u) + (if u = cur then {#nxt#} else {#})
        + (if u = nxt then {#cur#} else {#}))"
    using take_edge_nbrs [OF assms, of u] by simp
  then show ?thesis by auto
qed

lemma take_edge_symmetric:
  assumes st: "take_edge al cur = Inr (nxt, al')" and sym: "symmetric al"
  shows "symmetric al'"
  unfolding symmetric_def
proof (intro allI)
  fix u v
  define d :: nat where
    "d = (if u = cur \<and> v = nxt then 1 else 0) + (if u = nxt \<and> v = cur then 1 else 0)"
  have "count_list (nbrs al u) v = count_list (nbrs al v) u"
    using sym by (simp add: symmetric_def)
  moreover have "count_list (nbrs al u) v = count_list (nbrs al' u) v + d"
    unfolding d_def using take_edge_count [OF st, of u v] by linarith
  moreover have "d = (if v = cur \<and> u = nxt then 1 else 0) + (if v = nxt \<and> u = cur then 1 else 0)"
    by (cases "u = cur"; cases "v = nxt"; cases "u = nxt"; cases "v = cur"; simp add: d_def)
  then have "count_list (nbrs al v) u = count_list (nbrs al' v) u + d"
    using take_edge_count [OF st, of v u] by linarith
  ultimately show "count_list (nbrs al' u) v = count_list (nbrs al' v) u"
    by linarith
qed

lemma removals_symmetric:
  "removals al al' \<Longrightarrow> symmetric al \<Longrightarrow> symmetric al'"
proof (induction rule: removals.induct)
  case (removals_none al)
  then show ?case .
next
  case (removals_step al al1 cur nxt al2)
  from removals_step.hyps(2) removals_step.IH [OF removals_step.prems]
  show ?case by (rule take_edge_symmetric)
qed

lemma take_edge_store_ok:
  assumes st: "take_edge al cur = Inr (nxt, al')" and ok: "store_ok al"
  shows "store_ok al'"
proof -
  have "distinct (map fst al')"
    using ok take_edge_keys [OF st] by (simp add: store_ok_def)
  moreover have "symmetric al'"
    using st ok by (auto simp: store_ok_def intro: take_edge_symmetric)
  moreover have "loops_paired al'"
    unfolding loops_paired_def
  proof
    fix u
    define d :: nat where "d = (if u = cur \<and> u = nxt then 2 else 0)"
    have "even (count_list (nbrs al u) u)"
      using ok by (simp add: store_ok_def loops_paired_def)
    moreover have "count_list (nbrs al u) u = count_list (nbrs al' u) u + d"
      unfolding d_def using take_edge_count [OF st, of u u] by (cases "u = cur \<and> u = nxt") auto
    moreover have "even d" by (simp add: d_def)
    ultimately show "even (count_list (nbrs al' u) u)"
      by simp
  qed
  ultimately show ?thesis by (simp add: store_ok_def)
qed

lemma take_edge_parity:
  assumes "take_edge al cur = Inr (nxt, al')"
  shows "odd (length (nbrs al' u)) \<longleftrightarrow>
           (odd (length (nbrs al u)) \<noteq> ((u = cur) \<noteq> (u = nxt)))"
  using take_edge_length [OF assms, of u] by (auto split: if_splits)

lemma store_ok_take_edge:
  assumes ok: "store_ok al" and ne: "nbrs al cur \<noteq> []"
  shows "\<exists>al'. take_edge al cur = Inr (last (nbrs al cur), al')"
proof (rule take_edge_succeeds [OF ne])
  let ?n = "last (nbrs al cur)"
  have mem: "?n \<in> set (nbrs al cur)" using ne by simp
  then have "count_list (nbrs al cur) ?n \<noteq> 0"
    unfolding count_list_0_iff by simp
  then have pos: "0 < count_list (nbrs al cur) ?n"
    by simp
  {
    assume "?n \<noteq> cur"
    have "count_list (nbrs al ?n) cur = count_list (nbrs al cur) ?n"
      using ok by (simp add: store_ok_def symmetric_def)
    with pos have "count_list (nbrs al ?n) cur \<noteq> 0" by simp
    then show "cur \<in> set (nbrs al ?n)"
      unfolding count_list_0_iff by simp
  }
  {
    assume eq: "?n = cur"
    have "even (count_list (nbrs al cur) cur)"
      using ok by (simp add: store_ok_def loops_paired_def)
    with pos eq show "2 \<le> count_list (nbrs al cur) cur"
      by (cases "count_list (nbrs al cur) cur = 1") auto
  }
qed

section \<open>Arcs and the pairs of a tour\<close>

lemma count_arcs:
  "distinct (map fst al) \<Longrightarrow> count (arcs al) (u, v) = count_list (nbrs al u) v"
proof (induction al)
  case Nil
  then show ?case by (simp add: arcs_def arc_list_def nbrs_def)
next
  case (Cons p al)
  obtain k ns where p: "p = (k, ns)" by (cases p)
  from Cons.prems p have notin: "k \<notin> fst ` set al" and d: "distinct (map fst al)"
    by auto
  have IH: "count (arcs al) (u, v) = count_list (nbrs al u) v"
    by (rule Cons.IH [OF d])
  have split: "count (arcs (p # al)) (u, v) = count (mset (map (Pair k) ns)) (u, v) + count (arcs al) (u, v)"
    by (simp add: arcs_def arc_list_def p)
  have here: "count (mset (map (Pair k) ns)) (u, v) = (if u = k then count_list ns v else 0)"
    by (induction ns) auto
  show ?case
  proof (cases "u = k")
    case True
    with notin have "map_of al u = None"
      by (simp add: map_of_eq_None_iff)
    then have "nbrs al u = []" by (simp add: nbrs_def)
    with True split here IH show ?thesis
      by (simp add: nbrs_def p)
  next
    case False
    with split here IH show ?thesis
      by (simp add: nbrs_def p)
  qed
qed

lemma size_arcs: "size (arcs al) = slots al"
  by (induction al) (auto simp: arcs_def arc_list_def slots_def)

lemma mem_nbrs_arcs:
  "distinct (map fst al) \<Longrightarrow> w \<in> set (nbrs al x) \<longleftrightarrow> (x, w) \<in># arcs al"
proof -
  assume d: "distinct (map fst al)"
  have "w \<in> set (nbrs al x) \<longleftrightarrow> count_list (nbrs al x) w \<noteq> 0"
    by (simp add: count_list_0_iff)
  also have "\<dots> \<longleftrightarrow> count (arcs al) (x, w) \<noteq> 0"
    by (simp only: count_arcs [OF d])
  also have "\<dots> \<longleftrightarrow> (x, w) \<in># arcs al"
    by (simp add: count_eq_zero_iff)
  finally show ?thesis .
qed

lemma arcs_empty:
  assumes "distinct (map fst al)" "\<forall>v. nbrs al v = []"
  shows "arcs al = {#}"
proof (rule multiset_eqI)
  fix a :: "vertex \<times> vertex"
  obtain u v where a: "a = (u, v)" by (cases a)
  show "count (arcs al) a = count {#} a"
    unfolding a count_arcs [OF assms(1)] using assms(2) by simp
qed

lemma nbrs_shrink:
  assumes "distinct (map fst al)" "distinct (map fst al')" "arcs al = arcs al' + M"
    and "nbrs al' x \<noteq> []"
  shows "nbrs al x \<noteq> []"
proof -
  from assms(4) obtain w where "w \<in> set (nbrs al' x)"
    by (cases "nbrs al' x") auto
  then have "(x, w) \<in># arcs al'" by (simp add: mem_nbrs_arcs [OF assms(2)])
  then have "(x, w) \<in># arcs al" by (simp add: assms(3))
  then have "w \<in> set (nbrs al x)" by (simp add: mem_nbrs_arcs [OF assms(1)])
  then show ?thesis by auto
qed

lemma slots_pos_edge:
  assumes "0 < slots al" "distinct (map fst al)"
  shows "\<exists>u \<in> set (map fst al). nbrs al u \<noteq> []"
proof (rule ccontr)
  assume "\<not> ?thesis"
  then have "\<forall>v. nbrs al v = []"
    using nbrs_not_key [of _ al] by blast
  then have "arcs al = {#}" by (rule arcs_empty [OF assms(2)])
  then have "size (arcs al) = 0" by simp
  with assms(1) show False by (simp add: size_arcs)
qed

lemma take_edge_arcs:
  assumes st: "take_edge al cur = Inr (nxt, al')" and d: "distinct (map fst al)"
  shows "arcs al = arcs al' + {#(cur, nxt), (nxt, cur)#}"
proof (rule multiset_eqI)
  fix a :: "vertex \<times> vertex"
  obtain u v where a: "a = (u, v)" by (cases a)
  have d': "distinct (map fst al')" using d take_edge_keys [OF st] by simp
  have "count (arcs al' + {#(cur, nxt), (nxt, cur)#}) (u, v) =
      count (arcs al') (u, v) + count {#(cur, nxt), (nxt, cur)#} (u, v)"
    by (simp only: count_union)
  also have "count (arcs al') (u, v) = count_list (nbrs al' u) v"
    by (rule count_arcs [OF d'])
  also have "count {#(cur, nxt), (nxt, cur)#} (u, v) =
      (if u = cur \<and> v = nxt then 1 else 0) + (if u = nxt \<and> v = cur then 1 else 0)"
    by (cases "u = cur"; cases "v = nxt"; cases "u = nxt"; cases "v = cur"; simp)
  finally have "count (arcs al' + {#(cur, nxt), (nxt, cur)#}) (u, v) = count_list (nbrs al u) v"
    using take_edge_count [OF st, of u v] by linarith
  then show "count (arcs al) a = count (arcs al' + {#(cur, nxt), (nxt, cur)#}) a"
    unfolding a by (simp only: count_arcs [OF d])
qed

lemma tour_pairs_simps:
  "tour_pairs [] = []" "tour_pairs [x] = []"
  "tour_pairs (x # y # ys) = (x, y) # tour_pairs (y # ys)"
  by (simp_all add: tour_pairs_def)

lemma tour_pairs_snoc:
  "t \<noteq> [] \<Longrightarrow> tour_pairs (t @ [y]) = tour_pairs t @ [(last t, y)]"
proof (induction t)
  case Nil
  then show ?case by simp
next
  case (Cons x t)
  then show ?case by (cases t) (simp_all add: tour_pairs_simps)
qed

lemma tour_pairs_join:
  "tour_pairs (xs @ v # ys) = tour_pairs (xs @ [v]) @ tour_pairs (v # ys)"
proof (induction xs)
  case Nil
  then show ?case by (simp add: tour_pairs_simps)
next
  case (Cons x xs)
  then show ?case by (cases xs) (simp_all add: tour_pairs_simps)
qed

lemma length_tour_pairs: "length (tour_pairs t) = length t - 1"
  by (simp add: tour_pairs_def)

lemma undirected_append: "undirected (ps @ qs) = undirected ps + undirected qs"
  by (simp add: undirected_def)

lemma undirected_single: "undirected [(u, v)] = {#(u, v), (v, u)#}"
  by (simp add: undirected_def)

lemma size_undirected: "size (undirected ps) = 2 * length ps"
  by (simp add: undirected_def)

lemma in_undirected_tour:
  assumes "(u, v) \<in># undirected (tour_pairs t)"
  shows "u \<in> set t \<and> v \<in> set t"
proof -
  from assms have "(u, v) \<in> set (zip t (tl t)) \<or> (v, u) \<in> set (zip t (tl t))"
    by (auto simp: undirected_def tour_pairs_def)
  moreover have "set (tl t) \<subseteq> set t" by (cases t) auto
  ultimately show ?thesis
    by (auto dest: set_zip_leftD set_zip_rightD)
qed

section \<open>The walk returns to its start\<close>

lemma tour_loop_correct:
  "store_ok al \<Longrightarrow> t \<noteq> [] \<Longrightarrow> last t = n \<Longrightarrow>
   (\<forall>w. odd (length (nbrs al w)) \<longleftrightarrow> (w = n) \<noteq> (w = s)) \<Longrightarrow>
   \<exists>t' al'. tour_loop al s n t = Inr (t', al') \<and> store_ok al' \<and> even_degrees al' \<and>
      map fst al' = map fst al \<and> last t' = s \<and> (\<exists>w. t' = t @ w) \<and>
      arcs al + undirected (tour_pairs t) = arcs al' + undirected (tour_pairs t')"
proof (induction al s n t rule: tour_loop.induct)
  case (1 al s n t)
  note ok = "1.prems"(1) and ne = "1.prems"(2) and lst = "1.prems"(3) and par = "1.prems"(4)
  show ?case
  proof (cases "n \<noteq> s")
    case False
    then have "even_degrees al"
      using par by (simp add: even_degrees_def)
    with False ok lst show ?thesis unfolding tour_loop.simps [of al s n t] by simp
  next
    case True
    have "odd (length (nbrs al n))" using par True by simp
    then have nne: "nbrs al n \<noteq> []" by auto
    define nxt where "nxt = last (nbrs al n)"
    from store_ok_take_edge [OF ok nne] obtain al1 where
      st: "take_edge al n = Inr (nxt, al1)" unfolding nxt_def by blast
    have ok1: "store_ok al1" by (rule take_edge_store_ok [OF st ok])
    have par1: "\<forall>w. odd (length (nbrs al1 w)) \<longleftrightarrow> (w = nxt) \<noteq> (w = s)"
    proof
      fix w
      show "odd (length (nbrs al1 w)) \<longleftrightarrow> (w = nxt) \<noteq> (w = s)"
        unfolding take_edge_parity [OF st, of w] using par by blast
    qed
    have "\<exists>t' al'. tour_loop al1 s nxt (t @ [nxt]) = Inr (t', al') \<and> store_ok al' \<and>
        even_degrees al' \<and> map fst al' = map fst al1 \<and> last t' = s \<and>
        (\<exists>w. t' = (t @ [nxt]) @ w) \<and>
        arcs al1 + undirected (tour_pairs (t @ [nxt])) = arcs al' + undirected (tour_pairs t')"
      by (rule "1.IH" [OF True st refl ok1 _ _ par1]) simp_all
    then obtain t' al' w where
      run: "tour_loop al1 s nxt (t @ [nxt]) = Inr (t', al')" and
      post: "store_ok al'" "even_degrees al'" "map fst al' = map fst al1" "last t' = s" and
      ext: "t' = (t @ [nxt]) @ w" and
      cons: "arcs al1 + undirected (tour_pairs (t @ [nxt])) = arcs al' + undirected (tour_pairs t')"
      by blast
    have d: "distinct (map fst al)" using ok by (simp add: store_ok_def)
    have "arcs al = arcs al1 + {#(n, nxt), (nxt, n)#}"
      by (rule take_edge_arcs [OF st d])
    moreover have "undirected (tour_pairs (t @ [nxt])) = undirected (tour_pairs t) + {#(n, nxt), (nxt, n)#}"
      using ne lst by (simp add: tour_pairs_snoc undirected_append undirected_single)
    ultimately have "arcs al + undirected (tour_pairs t) = arcs al' + undirected (tour_pairs t')"
      using cons by (simp add: ac_simps)
    moreover have "tour_loop al s n t = Inr (t', al')"
      using True st run unfolding tour_loop.simps [of al s n t] by simp
    moreover have "map fst al' = map fst al"
      using post(3) take_edge_keys [OF st] by simp
    moreover have "\<exists>w. t' = t @ w" using ext by simp
    ultimately show ?thesis using post by blast
  qed
qed

lemma tour_loop_vertices:
  "tour_loop al s n t = Inr (t', al') \<Longrightarrow> set t' \<subseteq> set t \<union> set (map fst al)"
proof (induction al s n t rule: tour_loop.induct)
  case (1 al s n t)
  show ?case
  proof (cases "n \<noteq> s")
    case False
    with "1.prems" show ?thesis unfolding tour_loop.simps [of al s n t] by auto
  next
    case True
    with "1.prems" obtain nxt al1 where
      st: "take_edge al n = Inr (nxt, al1)" and
      rest: "tour_loop al1 s nxt (t @ [nxt]) = Inr (t', al')"
      unfolding tour_loop.simps [of al s n t] by (auto split: sum.splits)
    have "set t' \<subseteq> set (t @ [nxt]) \<union> set (map fst al1)"
      by (rule "1.IH" [OF True st refl rest])
    with take_edge_in_keys [OF st] take_edge_keys [OF st] show ?thesis by auto
  qed
qed

lemma hierholzer_tour_correct:
  assumes ok: "store_ok al" and ev: "even_degrees al" and ne: "nbrs al s \<noteq> []"
  shows "\<exists>t al'. hierholzer_tour al s = Inr (t, al') \<and> store_ok al' \<and> even_degrees al' \<and>
      map fst al' = map fst al \<and> hd t = s \<and> last t = s \<and> 2 \<le> length t \<and>
      set t \<subseteq> set (map fst al) \<and>
      arcs al = arcs al' + undirected (tour_pairs t)"
proof -
  define nxt where "nxt = last (nbrs al s)"
  from store_ok_take_edge [OF ok ne] obtain al1 where
    st: "take_edge al s = Inr (nxt, al1)" unfolding nxt_def by blast
  have ok1: "store_ok al1" by (rule take_edge_store_ok [OF st ok])
  have par1: "\<forall>w. odd (length (nbrs al1 w)) \<longleftrightarrow> (w = nxt) \<noteq> (w = s)"
  proof
    fix w
    have "even (length (nbrs al w))" using ev by (simp add: even_degrees_def)
    then show "odd (length (nbrs al1 w)) \<longleftrightarrow> (w = nxt) \<noteq> (w = s)"
      unfolding take_edge_parity [OF st, of w] by blast
  qed
  have "\<exists>t' al'. tour_loop al1 s nxt [s, nxt] = Inr (t', al') \<and> store_ok al' \<and>
      even_degrees al' \<and> map fst al' = map fst al1 \<and> last t' = s \<and>
      (\<exists>w. t' = [s, nxt] @ w) \<and>
      arcs al1 + undirected (tour_pairs [s, nxt]) = arcs al' + undirected (tour_pairs t')"
    by (rule tour_loop_correct [OF ok1 _ _ par1]) simp_all
  then obtain t al' w where
    run: "tour_loop al1 s nxt [s, nxt] = Inr (t, al')" and
    post: "store_ok al'" "even_degrees al'" "map fst al' = map fst al1" "last t = s" and
    ext: "t = [s, nxt] @ w" and
    cons: "arcs al1 + undirected (tour_pairs [s, nxt]) = arcs al' + undirected (tour_pairs t)"
    by blast
  have d: "distinct (map fst al)" using ok by (simp add: store_ok_def)
  have "arcs al = arcs al1 + {#(s, nxt), (nxt, s)#}"
    by (rule take_edge_arcs [OF st d])
  moreover have "undirected (tour_pairs [s, nxt]) = {#(s, nxt), (nxt, s)#}"
    by (simp add: tour_pairs_simps undirected_single)
  ultimately have "arcs al = arcs al' + undirected (tour_pairs t)"
    using cons by simp
  moreover have "hierholzer_tour al s = Inr (t, al')"
    using st run by (simp add: hierholzer_tour_def)
  moreover have "map fst al' = map fst al"
    using post(3) take_edge_keys [OF st] by simp
  moreover have "hd t = s" "2 \<le> length t" using ext by simp_all
  moreover have "set t \<subseteq> set (map fst al)"
    using tour_loop_vertices [OF run] take_edge_in_keys [OF st] take_edge_keys [OF st]
    by auto
  ultimately show ?thesis using post by blast
qed

lemma tour_loop_removals:
  "tour_loop al s n t = Inr (t', al') \<Longrightarrow> removals al0 al \<Longrightarrow> removals al0 al'"
proof (induction al s n t rule: tour_loop.induct)
  case (1 al s n t)
  show ?case
  proof (cases "n \<noteq> s")
    case False
    with "1.prems" show ?thesis unfolding tour_loop.simps [of al s n t] by simp
  next
    case True
    with "1.prems" obtain nxt al1 where
      st: "take_edge al n = Inr (nxt, al1)" and
      rest: "tour_loop al1 s nxt (t @ [nxt]) = Inr (t', al')"
      unfolding tour_loop.simps [of al s n t] by (auto split: sum.splits)
    have "removals al0 al1" using "1.prems"(2) st by (rule removals_step)
    then show ?thesis by (rule "1.IH" [OF True st refl rest])
  qed
qed

lemma hierholzer_tour_removals:
  assumes "hierholzer_tour al s = Inr (t, al')" "removals al0 al"
  shows "removals al0 al'"
proof -
  from assms(1) obtain nxt al1 where
    st: "take_edge al s = Inr (nxt, al1)" and
    rest: "tour_loop al1 s nxt [s, nxt] = Inr (t, al')"
    by (auto simp: hierholzer_tour_def split: sum.splits)
  have "removals al0 al1" using assms(2) st by (rule removals_step)
  with rest show ?thesis by (rule tour_loop_removals)
qed

section \<open>Splicing a sub-tour into the tour\<close>

lemma insert_loop_eq:
  "v_index < length tour \<Longrightarrow> u_index + length us = n \<Longrightarrow>
   insert_loop tour v_index n us u_index =
     take (Suc v_index) tour @ rev (butlast us) @ drop (Suc v_index) tour"
proof (induction us arbitrary: tour u_index)
  case Nil
  then show ?case by simp
next
  case (Cons u us)
  show ?case
  proof (cases "us = []")
    case True
    with Cons.prems have "int u_index = int n - 1" by auto
    with True show ?thesis by simp
  next
    case False
    with Cons.prems have neq: "int u_index \<noteq> int n - 1" by (cases us) auto
    let ?tour = "list_insert (v_index + 1) u tour"
    have len: "v_index < length ?tour"
      using Cons.prems(1) by (simp add: list_insert_def)
    have "insert_loop ?tour v_index n us (u_index + 1) =
        take (Suc v_index) ?tour @ rev (butlast us) @ drop (Suc v_index) ?tour"
      using Cons.prems(2) by (intro Cons.IH [OF len]) simp
    moreover have "take (Suc v_index) ?tour = take (Suc v_index) tour"
      using Cons.prems(1) by (simp add: list_insert_def)
    moreover have "drop (Suc v_index) ?tour = u # drop (Suc v_index) tour"
      using Cons.prems(1) by (simp add: list_insert_def min_def)
    ultimately show ?thesis
      using neq False by simp
  qed
qed

lemma splice_eq:
  assumes "v_index < length tour"
  shows "splice_in tour v_index v_tour = take (Suc v_index) tour @ tl v_tour @ drop (Suc v_index) tour"
proof -
  have "rev (butlast (rev v_tour)) = tl v_tour"
    by simp
  then show ?thesis
    unfolding splice_in_def using insert_loop_eq [OF assms, of 0 "rev v_tour" "length v_tour"]
    by simp
qed

lemma splice_replace:
  assumes "v_index < length tour" "v_tour \<noteq> []" "hd v_tour = tour ! v_index"
  shows "splice_in tour v_index v_tour = take v_index tour @ v_tour @ drop (Suc v_index) tour"
proof -
  have "take (Suc v_index) tour = take v_index tour @ [hd v_tour]"
    using assms(1,3) by (simp add: take_Suc_conv_app_nth)
  moreover have "[hd v_tour] @ tl v_tour = v_tour"
    using assms(2) by simp
  ultimately show ?thesis
    unfolding splice_eq [OF assms(1)] by (metis append.assoc)
qed

lemma tour_pairs_splice:
  assumes i: "i < length tour" and h: "hd vt = tour ! i" and l: "last vt = tour ! i"
    and n: "2 \<le> length vt"
  shows "undirected (tour_pairs (splice_in tour i vt)) =
           undirected (tour_pairs tour) + undirected (tour_pairs vt)"
proof -
  define v where "v = tour ! i"
  define A where "A = take i tour"
  define B where "B = drop (Suc i) tour"
  have tour: "tour = A @ v # B"
    unfolding A_def B_def v_def using i by (rule id_take_nth_drop)
  from n have vne: "vt \<noteq> []" by auto
  from n h obtain R where vt: "vt = v # R" and Rne: "R \<noteq> []"
    unfolding v_def by (cases vt; cases "tl vt") auto
  from l vt Rne have "last R = v" unfolding v_def by simp
  with Rne obtain R' where R: "R = R' @ [v]"
    by (metis append_butlast_last_id)
  have sp: "splice_in tour i vt = A @ vt @ B"
    unfolding A_def B_def by (rule splice_replace [OF i vne h])
  have "tour_pairs (A @ vt @ B) = tour_pairs (A @ [v]) @ tour_pairs (v # R @ B)"
    unfolding vt using tour_pairs_join [of A v "R @ B"] by simp
  also have "v # R @ B = (v # R') @ v # B"
    unfolding R by simp
  also have "tour_pairs ((v # R') @ v # B) = tour_pairs vt @ tour_pairs (v # B)"
    unfolding vt R using tour_pairs_join [of "v # R'" v B] by simp
  finally have 1: "tour_pairs (splice_in tour i vt) =
      tour_pairs (A @ [v]) @ tour_pairs vt @ tour_pairs (v # B)"
    unfolding sp .
  have 2: "tour_pairs tour = tour_pairs (A @ [v]) @ tour_pairs (v # B)"
    unfolding tour by (rule tour_pairs_join)
  show ?thesis
    unfolding 1 2 by (simp add: undirected_append)
qed

lemma splice_ends:
  assumes i: "i < length tour" and h: "hd vt = tour ! i" and l: "last vt = tour ! i"
    and vne: "vt \<noteq> []"
  shows "splice_in tour i vt \<noteq> [] \<and> hd (splice_in tour i vt) = hd tour \<and>
         last (splice_in tour i vt) = last tour"
proof -
  have sp: "splice_in tour i vt = take i tour @ vt @ drop (Suc i) tour"
    by (rule splice_replace [OF i vne h])
  have "hd (splice_in tour i vt) = hd tour"
  proof (cases i)
    case 0
    have "tour ! 0 = hd tour" using i by (cases tour) auto
    with 0 h vne show ?thesis unfolding sp by simp
  next
    case (Suc j)
    with i have "take i tour \<noteq> []" by auto
    then show ?thesis unfolding sp using Suc by (simp add: hd_append)
  qed
  moreover have "last (splice_in tour i vt) = last tour"
  proof (cases "drop (Suc i) tour = []")
    case True
    then have "Suc i = length tour" using i by simp
    then have "i = length tour - 1" by simp
    moreover have "tour \<noteq> []" using i by auto
    ultimately have "tour ! i = last tour" by (simp add: last_conv_nth)
    with True l vne show ?thesis unfolding sp by simp
  next
    case False
    then show ?thesis unfolding sp using vne by simp
  qed
  ultimately show ?thesis unfolding sp using vne by simp
qed

section \<open>The outer loop\<close>

lemma dict_get_key:
  "v \<in> set (map fst al) \<Longrightarrow> dict_get al v = Inr (nbrs al v)"
proof -
  assume "v \<in> set (map fst al)"
  then have "map_of al v \<noteq> None"
    by (simp add: map_of_eq_None_iff)
  then show ?thesis
    by (auto simp: dict_get_def nbrs_def)
qed

lemma scan_loop_correct:
  "store_ok al \<Longrightarrow> even_degrees al \<Longrightarrow> set tour \<subseteq> set (map fst al) \<Longrightarrow>
   (\<forall>v \<in> set tour. nbrs al v \<noteq> [] \<longrightarrow> v \<in> set (drop i tour)) \<Longrightarrow>
   \<exists>t' al'. scan_loop al tour i = Inr (t', al') \<and> store_ok al' \<and> even_degrees al' \<and>
      map fst al' = map fst al \<and> (\<forall>v \<in> set t'. nbrs al' v = []) \<and>
      (tour \<noteq> [] \<longrightarrow> t' \<noteq> [] \<and> hd t' = hd tour \<and> last t' = last tour) \<and>
      arcs al + undirected (tour_pairs tour) = arcs al' + undirected (tour_pairs t')"
proof (induction al tour i rule: scan_loop.induct)
  case (1 al tour i)
  note ok = "1.prems"(1) and ev = "1.prems"(2) and keys = "1.prems"(3) and pend = "1.prems"(4)
  show ?case
  proof (cases "i < length tour")
    case False
    then have "drop i tour = []" by simp
    with pend have "\<forall>v \<in> set tour. nbrs al v = []" by auto
    moreover have "scan_loop al tour i = Inr (tour, al)"
      using False unfolding scan_loop.simps [of al tour i] by simp
    ultimately show ?thesis using ok ev by simp
  next
    case True
    define v where "v = tour ! i"
    have vin: "v \<in> set tour" unfolding v_def using True by simp
    then have vkey: "v \<in> set (map fst al)" using keys by auto
    have dg: "dict_get al (tour ! i) = Inr (nbrs al v)"
      unfolding v_def [symmetric] by (rule dict_get_key [OF vkey])
    have dropi: "drop i tour = v # drop (Suc i) tour"
      unfolding v_def using True by (simp add: Cons_nth_drop_Suc)
    show ?thesis
    proof (cases "length (nbrs al v) \<noteq> 0")
      case False
      then have emp: "nbrs al v = []" by simp
      have pend': "\<forall>x \<in> set tour. nbrs al x \<noteq> [] \<longrightarrow> x \<in> set (drop (i + 1) tour)"
        using pend emp dropi by auto
      have "\<exists>t' al'. scan_loop al tour (i + 1) = Inr (t', al') \<and> store_ok al' \<and>
          even_degrees al' \<and> map fst al' = map fst al \<and> (\<forall>v \<in> set t'. nbrs al' v = []) \<and>
          (tour \<noteq> [] \<longrightarrow> t' \<noteq> [] \<and> hd t' = hd tour \<and> last t' = last tour) \<and>
          arcs al + undirected (tour_pairs tour) = arcs al' + undirected (tour_pairs t')"
        by (rule "1.IH"(2) [OF True dg False ok ev keys pend'])
      moreover have "scan_loop al tour i = scan_loop al tour (i + 1)"
        using True dg emp unfolding scan_loop.simps [of al tour i] by simp
      ultimately show ?thesis by simp
    next
      case nonempty: True
      then have ne: "nbrs al v \<noteq> []" by simp
      from hierholzer_tour_correct [OF ok ev ne] obtain vt al1 where
        ht: "hierholzer_tour al v = Inr (vt, al1)" and
        ok1: "store_ok al1" and ev1: "even_degrees al1" and
        k1: "map fst al1 = map fst al" and
        hd_vt: "hd vt = v" and last_vt: "last vt = v" and len_vt: "2 \<le> length vt" and
        vt_keys: "set vt \<subseteq> set (map fst al)" and
        cons1: "arcs al = arcs al1 + undirected (tour_pairs vt)"
        by blast
      have ht': "hierholzer_tour al (tour ! i) = Inr (vt, al1)"
        using ht by (simp add: v_def)
      define T where "T = splice_in tour i vt"
      have vne: "vt \<noteq> []" using len_vt by auto
      have T: "T = take i tour @ vt @ drop (Suc i) tour"
        unfolding T_def by (rule splice_replace [OF True vne]) (simp add: hd_vt v_def)
      have d: "distinct (map fst al)" and d1: "distinct (map fst al1)"
        using ok ok1 by (simp_all add: store_ok_def)
      have keysT: "set T \<subseteq> set (map fst al1)"
      proof -
        have "set (take i tour) \<subseteq> set tour" by (rule set_take_subset)
        moreover have "set (drop (Suc i) tour) \<subseteq> set tour" by (rule set_drop_subset)
        ultimately show ?thesis unfolding T k1 using keys vt_keys by auto
      qed
      have v_tl: "v \<in> set (tl vt)"
      proof -
        have "tl vt \<noteq> []" using len_vt by (cases vt; cases "tl vt") auto
        moreover have "last (tl vt) = v" using last_vt len_vt
          by (cases vt; cases "tl vt") auto
        ultimately show ?thesis using last_in_set by blast
      qed
      have set_vt: "set vt \<subseteq> set (tl vt)"
      proof -
        have "vt = v # tl vt" using vne hd_vt by (cases vt) auto
        then have "set vt = insert v (set (tl vt))" by (metis list.simps(15))
        with v_tl show ?thesis by auto
      qed
      have dropT: "drop (i + 1) T = tl vt @ drop (Suc i) tour"
      proof -
        have "length (take i tour) = i" using True by simp
        then have "drop (i + 1) T = drop 1 (vt @ drop (Suc i) tour)"
          unfolding T by (simp only: drop_append) simp
        also have "\<dots> = tl vt @ drop (Suc i) tour"
          using vne by (cases vt) simp_all
        finally show ?thesis .
      qed
      have pendT: "\<forall>x \<in> set T. nbrs al1 x \<noteq> [] \<longrightarrow> x \<in> set (drop (i + 1) T)"
      proof (intro ballI impI)
        fix x assume xT: "x \<in> set T" and xne: "nbrs al1 x \<noteq> []"
        from xT consider "x \<in> set (take i tour)" | "x \<in> set vt" | "x \<in> set (drop (Suc i) tour)"
          unfolding T by auto
        then show "x \<in> set (drop (i + 1) T)"
        proof cases
          case 1
          then have "x \<in> set tour" by (rule in_set_takeD)
          moreover have "nbrs al x \<noteq> []"
            by (rule nbrs_shrink [OF d d1 cons1 xne])
          ultimately have "x \<in> set (drop i tour)" using pend by blast
          then have "x = v \<or> x \<in> set (drop (Suc i) tour)" unfolding dropi by simp
          then show ?thesis unfolding dropT using v_tl by auto
        next
          case 2
          then show ?thesis unfolding dropT using set_vt by auto
        next
          case 3
          then show ?thesis unfolding dropT by simp
        qed
      qed
      have "\<exists>t' al'. scan_loop al1 T (i + 1) = Inr (t', al') \<and> store_ok al' \<and>
          even_degrees al' \<and> map fst al' = map fst al1 \<and> (\<forall>v \<in> set t'. nbrs al' v = []) \<and>
          (T \<noteq> [] \<longrightarrow> t' \<noteq> [] \<and> hd t' = hd T \<and> last t' = last T) \<and>
          arcs al1 + undirected (tour_pairs T) = arcs al' + undirected (tour_pairs t')"
        unfolding T_def
        by (rule "1.IH"(1) [OF True dg nonempty ht' refl ok1 ev1 keysT [unfolded T_def]
              pendT [unfolded T_def]])
      then obtain t' al' where
        run: "scan_loop al1 T (i + 1) = Inr (t', al')" and
        post: "store_ok al'" "even_degrees al'" "map fst al' = map fst al1"
          "\<forall>v \<in> set t'. nbrs al' v = []" and
        ends: "T \<noteq> [] \<longrightarrow> t' \<noteq> [] \<and> hd t' = hd T \<and> last t' = last T" and
        cons: "arcs al1 + undirected (tour_pairs T) = arcs al' + undirected (tour_pairs t')"
        by blast
      have endsT: "T \<noteq> [] \<and> hd T = hd tour \<and> last T = last tour"
        unfolding T_def by (rule splice_ends [OF True _ _ vne]) (simp_all add: hd_vt last_vt v_def)
      have "undirected (tour_pairs T) = undirected (tour_pairs tour) + undirected (tour_pairs vt)"
        unfolding T_def
        by (rule tour_pairs_splice [OF True _ _ len_vt]) (simp_all add: hd_vt last_vt v_def)
      with cons cons1 have "arcs al + undirected (tour_pairs tour) =
          arcs al' + undirected (tour_pairs t')"
        by (simp add: ac_simps)
      moreover have "scan_loop al tour i = Inr (t', al')"
        using True dg nonempty ht' run
        unfolding T_def scan_loop.simps [of al tour i] by simp
      moreover have "map fst al' = map fst al" using post(3) k1 by simp
      ultimately show ?thesis using post ends endsT by simp
    qed
  qed
qed

lemma scan_loop_removals:
  "scan_loop al tour i = Inr (t', al') \<Longrightarrow> removals al0 al \<Longrightarrow> removals al0 al'"
proof (induction al tour i rule: scan_loop.induct)
  case (1 al tour i)
  show ?case
  proof (cases "i < length tour")
    case False
    with "1.prems" show ?thesis unfolding scan_loop.simps [of al tour i] by simp
  next
    case True
    with "1.prems"(1) obtain ns where dg: "dict_get al (tour ! i) = Inr ns"
      unfolding scan_loop.simps [of al tour i] by (cases "dict_get al (tour ! i)") auto
    show ?thesis
    proof (cases "length ns \<noteq> 0")
      case False
      with True dg "1.prems"(1) have "scan_loop al tour (i + 1) = Inr (t', al')"
        unfolding scan_loop.simps [of al tour i] by simp
      then show ?thesis using "1.IH"(2) [OF True dg False] "1.prems"(2) by blast
    next
      case nonempty: True
      with True dg "1.prems"(1) obtain vt al1 where
        ht: "hierholzer_tour al (tour ! i) = Inr (vt, al1)" and
        rest: "scan_loop al1 (splice_in tour i vt) (i + 1) = Inr (t', al')"
        unfolding scan_loop.simps [of al tour i] by (cases "hierholzer_tour al (tour ! i)") auto
      have "removals al0 al1" by (rule hierholzer_tour_removals [OF ht "1.prems"(2)])
      then show ?thesis by (rule "1.IH"(1) [OF True dg nonempty ht refl rest])
    qed
  qed
qed

text \<open>Once every vertex of the tour is exhausted the loop only scans on: it returns
  the tour and the adjacency structure as they are.\<close>

lemma scan_loop_exhausted:
  "set tour \<subseteq> set (map fst al) \<Longrightarrow> (\<forall>v \<in> set tour. nbrs al v = []) \<Longrightarrow>
   scan_loop al tour i = Inr (tour, al)"
proof (induction al tour i rule: scan_loop.induct)
  case (1 al tour i)
  note unf = scan_loop.simps [of al tour i]
  show ?case
  proof (cases "i < length tour")
    case False
    then show ?thesis unfolding unf by simp
  next
    case True
    then have vin: "tour ! i \<in> set tour" by simp
    with "1.prems" have emp: "nbrs al (tour ! i) = []" by blast
    from vin "1.prems"(1) have "tour ! i \<in> set (map fst al)" by blast
    then have dg: "dict_get al (tour ! i) = Inr (nbrs al (tour ! i))" by (rule dict_get_key)
    have "\<not> length (nbrs al (tour ! i)) \<noteq> 0" using emp by simp
    from "1.IH"(2) [OF True dg this "1.prems"]
    have "scan_loop al tour (i + 1) = Inr (tour, al)" .
    with True dg emp show ?thesis unfolding unf by simp
  qed
qed

section \<open>The tour uses every edge\<close>

lemma start_has_edge:
  assumes conn: "connected al" and s: "s \<in> set (map fst al)"
    and u: "u \<in> set (map fst al)" "nbrs al u \<noteq> []"
  shows "nbrs al s \<noteq> []"
proof (cases "s = u")
  case True
  with u show ?thesis by simp
next
  case False
  have "(s, u) \<in> (adjacent al)\<^sup>*"
    using conn s u(1) unfolding connected_def by blast
  with False obtain x where "(s, x) \<in> adjacent al"
    by (auto elim: converse_rtranclE)
  then show ?thesis by (auto simp: adjacent_def)
qed

text \<open>Where every vertex of the tour is exhausted, every vertex reachable from it lies on
  the tour.\<close>

lemma reachable_on_tour:
  assumes d: "distinct (map fst al)" and d': "distinct (map fst al')"
    and cons: "arcs al = arcs al' + undirected (tour_pairs t)"
    and exh: "\<forall>v \<in> set t. nbrs al' v = []"
    and reach: "(s, w) \<in> (adjacent al)\<^sup>*" and s: "s \<in> set t"
  shows "w \<in> set t"
  using reach
proof (induction rule: rtrancl_induct)
  case base
  show ?case by (rule s)
next
  case (step y z)
  from step.hyps(2) have "z \<in> set (nbrs al y)" by (simp add: adjacent_def)
  then have "(y, z) \<in># arcs al" by (simp add: mem_nbrs_arcs [OF d])
  moreover have "(y, z) \<notin># arcs al'"
    using exh step.IH by (simp add: mem_nbrs_arcs [OF d', symmetric])
  ultimately have "(y, z) \<in># undirected (tour_pairs t)"
    unfolding cons by simp
  then show ?case using in_undirected_tour by blast
qed

lemma hierholzer_run_correct:
  assumes valid: "valid_graph g" and edge: "0 < num_edges g"
  shows "\<exists>t al'. hierholzer_run g = Inr (t, al') \<and> t \<noteq> [] \<and>
      hd t = hd (vertices g) \<and> last t = hd (vertices g) \<and>
      undirected (tour_pairs t) = arcs (adj_list g) \<and> length t = num_edges g + 1 \<and>
      map fst al' = map fst (adj_list g) \<and> (\<forall>v. nbrs al' v = [])"
proof -
  define al where "al = adj_list g"
  from valid have vs: "set (vertices g) = set (map fst al)" and ok: "store_ok al"
    and ev: "even_degrees al" and conn: "connected al"
    by (simp_all add: valid_graph_def al_def)
  have d: "distinct (map fst al)" using ok by (simp add: store_ok_def)
  from edge have pos: "0 < slots al" by (simp add: num_edges_def al_def)
  from slots_pos_edge [OF pos d] obtain u where
    u: "u \<in> set (map fst al)" "nbrs al u \<noteq> []" by blast
  from u(1) vs have vne: "vertices g \<noteq> []" by auto
  define s where "s = hd (vertices g)"
  from vne obtain rest where vg: "vertices g = s # rest"
    unfolding s_def by (cases "vertices g") auto
  then have skey: "s \<in> set (map fst al)" using vs by auto
  have sne: "nbrs al s \<noteq> []" by (rule start_has_edge [OF conn skey u])
  from hierholzer_tour_correct [OF ok ev sne] obtain t0 al0 where
    ht: "hierholzer_tour al s = Inr (t0, al0)" and
    ok0: "store_ok al0" and ev0: "even_degrees al0" and
    k0: "map fst al0 = map fst al" and
    ends0: "hd t0 = s" "last t0 = s" "2 \<le> length t0" and
    keys0: "set t0 \<subseteq> set (map fst al)" and
    cons0: "arcs al = arcs al0 + undirected (tour_pairs t0)"
    by blast
  have "\<exists>t' al'. scan_loop al0 t0 0 = Inr (t', al') \<and> store_ok al' \<and> even_degrees al' \<and>
      map fst al' = map fst al0 \<and> (\<forall>v \<in> set t'. nbrs al' v = []) \<and>
      (t0 \<noteq> [] \<longrightarrow> t' \<noteq> [] \<and> hd t' = hd t0 \<and> last t' = last t0) \<and>
      arcs al0 + undirected (tour_pairs t0) = arcs al' + undirected (tour_pairs t')"
    using keys0 k0 by (intro scan_loop_correct [OF ok0 ev0]) simp_all
  then obtain t al' where
    run: "scan_loop al0 t0 0 = Inr (t, al')" and
    ok': "store_ok al'" and k': "map fst al' = map fst al0" and
    exh: "\<forall>v \<in> set t. nbrs al' v = []" and
    ends: "t0 \<noteq> [] \<longrightarrow> t \<noteq> [] \<and> hd t = hd t0 \<and> last t = last t0" and
    cons': "arcs al0 + undirected (tour_pairs t0) = arcs al' + undirected (tour_pairs t)"
    by blast
  have t0ne: "t0 \<noteq> []" using ends0(3) by auto
  with ends ends0 have tne: "t \<noteq> []" and hd_t: "hd t = s" and last_t: "last t = s"
    by simp_all
  have cons: "arcs al = arcs al' + undirected (tour_pairs t)"
    using cons0 cons' by simp
  have d': "distinct (map fst al')" using ok' by (simp add: store_ok_def)
  have s_on: "s \<in> set t" using tne hd_t by (metis hd_in_set)
  have all_done: "\<forall>v. nbrs al' v = []"
  proof
    fix v
    show "nbrs al' v = []"
    proof (cases "v \<in> set (map fst al)")
      case True
      have "(s, v) \<in> (adjacent al)\<^sup>*"
        using conn skey True unfolding connected_def by blast
      then have "v \<in> set t"
        by (rule reachable_on_tour [OF d d' cons exh _ s_on])
      with exh show ?thesis by blast
    next
      case False
      then show ?thesis using k' k0 by (intro nbrs_not_key) simp
    qed
  qed
  have "arcs al' = {#}" by (rule arcs_empty [OF d' all_done])
  with cons have full: "undirected (tour_pairs t) = arcs al" by simp
  have "size (undirected (tour_pairs t)) = size (arcs al)" by (simp only: full)
  then have "2 * (length t - 1) = slots al"
    by (simp add: size_undirected length_tour_pairs size_arcs)
  then have len: "length t = num_edges g + 1"
    using tne by (cases t) (simp_all add: num_edges_def al_def)
  have "hierholzer_run g = Inr (t, al')"
    using vg ht run by (simp add: hierholzer_run_def al_def)
  then show ?thesis
    using tne hd_t last_t full len k' k0 all_done by (simp add: s_def al_def)
qed

text \<open>The adjacency structure \<open>hierholzer\<close> ends with arises from the graph's by edge
  removals, as does every structure it passes through.\<close>

lemma hierholzer_run_removals:
  assumes "hierholzer_run g = Inr (t, al')"
  shows "removals (adj_list g) al'"
proof -
  from assms obtain v0 t0 al0 where
    ht: "hierholzer_tour (adj_list g) v0 = Inr (t0, al0)" and
    sc: "scan_loop al0 t0 0 = Inr (t, al')"
    by (auto simp: hierholzer_run_def split: list.splits sum.splits)
  have "removals (adj_list g) al0"
    by (rule hierholzer_tour_removals [OF ht removals_none])
  with sc show ?thesis by (rule scan_loop_removals)
qed

lemma slots_even:
  assumes "valid_graph g"
  shows "slots (adj_list g) = 2 * num_edges g"
proof -
  let ?al = "adj_list g"
  have ev: "\<forall>p \<in> set al. even (length (snd p)) \<Longrightarrow> even (slots al)" for al :: adj
    by (induction al) (auto simp: slots_def)
  have d: "distinct (map fst ?al)" and e: "even_degrees ?al"
    using assms by (simp_all add: valid_graph_def store_ok_def)
  have "\<forall>p \<in> set ?al. even (length (snd p))"
  proof
    fix p assume p: "p \<in> set ?al"
    obtain k ns where kn: "p = (k, ns)" by (cases p)
    with p d have "map_of ?al k = Some ns" by simp
    then have "nbrs ?al k = ns" by (rule nbrs_Some)
    with e kn show "even (length (snd p))" by (auto simp: even_degrees_def)
  qed
  then have "even (slots ?al)" by (rule ev)
  then show ?thesis by (auto simp: num_edges_def)
qed

section \<open>Checking the predicates on a given graph\<close>

lemma symmetric_keys:
  "symmetric al \<longleftrightarrow>
     (\<forall>u \<in> set (map fst al). (\<forall>w \<in> set (nbrs al u). w \<in> set (map fst al)) \<and>
        (\<forall>v \<in> set (map fst al). count_list (nbrs al u) v = count_list (nbrs al v) u))"
  (is "?L \<longleftrightarrow> ?R")
proof
  assume L: ?L
  show ?R
  proof (intro ballI conjI)
    fix u v assume "v \<in> set (nbrs al u)"
    then have "count_list (nbrs al u) v \<noteq> 0" by (simp add: count_list_0_iff)
    then have "count_list (nbrs al v) u \<noteq> 0" using L by (simp add: symmetric_def)
    then have "nbrs al v \<noteq> []" by auto
    then show "v \<in> set (map fst al)" using nbrs_not_key by blast
  next
    fix u v
    show "count_list (nbrs al u) v = count_list (nbrs al v) u"
      using L by (simp add: symmetric_def)
  qed
next
  assume R: ?R
  show ?L
    unfolding symmetric_def
  proof (intro allI)
    fix u v
    consider "u \<in> set (map fst al)" "v \<in> set (map fst al)"
      | "u \<in> set (map fst al)" "v \<notin> set (map fst al)"
      | "u \<notin> set (map fst al)" "v \<in> set (map fst al)"
      | "u \<notin> set (map fst al)" "v \<notin> set (map fst al)"
      by blast
    then show "count_list (nbrs al u) v = count_list (nbrs al v) u"
    proof cases
      case 1
      with R show ?thesis by blast
    next
      case 2
      with R have "v \<notin> set (nbrs al u)" by blast
      with 2 show ?thesis by (simp add: nbrs_not_key)
    next
      case 3
      with R have "u \<notin> set (nbrs al v)" by blast
      with 3 show ?thesis by (simp add: nbrs_not_key)
    next
      case 4
      then show ?thesis by (simp add: nbrs_not_key)
    qed
  qed
qed

lemma loops_paired_keys:
  "loops_paired al \<longleftrightarrow> (\<forall>u \<in> set (map fst al). even (count_list (nbrs al u) u))"
  unfolding loops_paired_def
proof
  assume "\<forall>u. even (count_list (nbrs al u) u)"
  then show "\<forall>u \<in> set (map fst al). even (count_list (nbrs al u) u)" by blast
next
  assume R: "\<forall>u \<in> set (map fst al). even (count_list (nbrs al u) u)"
  show "\<forall>u. even (count_list (nbrs al u) u)"
  proof
    fix u
    show "even (count_list (nbrs al u) u)"
    proof (cases "u \<in> set (map fst al)")
      case True
      with R show ?thesis by blast
    next
      case False
      then show ?thesis by (simp add: nbrs_not_key)
    qed
  qed
qed

lemma even_degrees_keys:
  "even_degrees al \<longleftrightarrow> (\<forall>u \<in> set (map fst al). even (length (nbrs al u)))"
  unfolding even_degrees_def
proof
  assume "\<forall>u. even (length (nbrs al u))"
  then show "\<forall>u \<in> set (map fst al). even (length (nbrs al u))" by blast
next
  assume R: "\<forall>u \<in> set (map fst al). even (length (nbrs al u))"
  show "\<forall>u. even (length (nbrs al u))"
  proof
    fix u
    show "even (length (nbrs al u))"
    proof (cases "u \<in> set (map fst al)")
      case True
      with R show ?thesis by blast
    next
      case False
      then show ?thesis by (simp add: nbrs_not_key)
    qed
  qed
qed

lemma adjacent_sym:
  assumes "symmetric al" "(u, v) \<in> adjacent al"
  shows "(v, u) \<in> adjacent al"
proof -
  from assms(2) have "count_list (nbrs al u) v \<noteq> 0"
    by (simp add: adjacent_def count_list_0_iff)
  then have "count_list (nbrs al v) u \<noteq> 0"
    using assms(1) by (simp add: symmetric_def)
  then show ?thesis by (simp add: adjacent_def count_list_0_iff)
qed

lemma connected_from:
  assumes sym: "symmetric al"
    and reach: "\<forall>v \<in> set (map fst al). (r, v) \<in> (adjacent al)\<^sup>*"
  shows "connected al"
  unfolding connected_def
proof (intro ballI)
  fix u v assume u: "u \<in> set (map fst al)" and v: "v \<in> set (map fst al)"
  have rev_path: "(x, r) \<in> (adjacent al)\<^sup>*" if "(r, x) \<in> (adjacent al)\<^sup>*" for x
    using that
  proof (induction rule: rtrancl_induct)
    case base
    show ?case by simp
  next
    case (step y z)
    from step.hyps(2) have "(z, y) \<in> adjacent al" by (rule adjacent_sym [OF sym])
    then show ?case using step.IH by (rule converse_rtrancl_into_rtrancl)
  qed
  from reach u have "(u, r) \<in> (adjacent al)\<^sup>*" by (intro rev_path) blast
  moreover from reach v have "(r, v) \<in> (adjacent al)\<^sup>*" by blast
  ultimately show "(u, v) \<in> (adjacent al)\<^sup>*" by (rule rtrancl_trans)
qed

section \<open>Example graphs\<close>

text \<open>Two triangles that share the vertex \<open>a\<close> (scenario 2 in section 8 of the
  specification): the initial sub-tour \<open>a, e, d, a\<close> leaves the triangle \<open>a, b, c\<close>,
  which the outer loop splices in at position 0.\<close>

definition two_triangles :: graph where
  "two_triangles =
     \<lparr>vertices = [''a'', ''b'', ''c'', ''d'', ''e''],
      adj_list = [(''a'', [''b'', ''c'', ''d'', ''e'']), (''b'', [''a'', ''c'']),
                  (''c'', [''b'', ''a'']), (''d'', [''a'', ''e'']), (''e'', [''d'', ''a''])]\<rparr>"

lemma two_triangles_valid: "valid_graph two_triangles"
proof -
  let ?al = "adj_list two_triangles"
  have sym: "symmetric ?al"
    unfolding symmetric_keys by (simp add: two_triangles_def nbrs_def)
  have adj: "(''a'', ''b'') \<in> adjacent ?al" "(''a'', ''c'') \<in> adjacent ?al"
    "(''a'', ''d'') \<in> adjacent ?al" "(''a'', ''e'') \<in> adjacent ?al"
    by (simp_all add: two_triangles_def adjacent_def nbrs_def)
  have "\<forall>v \<in> set (map fst ?al). (''a'', v) \<in> (adjacent ?al)\<^sup>*"
    using adj by (auto simp: two_triangles_def)
  with sym have "connected ?al" by (rule connected_from)
  moreover have "loops_paired ?al"
    unfolding loops_paired_keys by (simp add: two_triangles_def nbrs_def)
  moreover have "even_degrees ?al"
    unfolding even_degrees_keys by (simp add: two_triangles_def nbrs_def)
  moreover have "distinct (map fst ?al)" "set (vertices two_triangles) = set (map fst ?al)"
    by (simp_all add: two_triangles_def)
  ultimately show ?thesis using sym by (simp add: valid_graph_def store_ok_def)
qed

lemma two_triangles_edges: "num_edges two_triangles = 6"
  by (simp add: num_edges_def slots_def two_triangles_def)

lemma two_triangles_run:
  "hierholzer_run two_triangles =
     Inr ([''a'', ''c'', ''b'', ''a'', ''e'', ''d'', ''a''],
          [(''a'', []), (''b'', []), (''c'', []), (''d'', []), (''e'', [])])"
  by (simp add: two_triangles_def hierholzer_run_def hierholzer_tour_def take_edge_def
      tour_loop.simps scan_loop.simps dict_get_def list_pop_def list_remove_def
      splice_in_def list_insert_def)

lemma two_triangles_tour:
  "hierholzer two_triangles = Inr [''a'', ''c'', ''b'', ''a'', ''e'', ''d'', ''a'']"
  by (simp add: hierholzer_def two_triangles_run)

text \<open>The adjacency structure of the two triangles after the initial sub-tour
  \<open>a, e, d, a\<close>: the triangle \<open>a, b, c\<close> is still unused.\<close>

definition one_triangle_left :: adj where
  "one_triangle_left =
     [(''a'', [''b'', ''c'']), (''b'', [''a'', ''c'']), (''c'', [''b'', ''a'']),
      (''d'', []), (''e'', [])]"

lemma one_triangle_left_ok: "store_ok one_triangle_left \<and> even_degrees one_triangle_left"
proof -
  have "symmetric one_triangle_left"
    unfolding symmetric_keys by (simp add: one_triangle_left_def nbrs_def)
  moreover have "loops_paired one_triangle_left"
    unfolding loops_paired_keys by (simp add: one_triangle_left_def nbrs_def)
  moreover have "even_degrees one_triangle_left"
    unfolding even_degrees_keys by (simp add: one_triangle_left_def nbrs_def)
  ultimately show ?thesis by (simp add: store_ok_def one_triangle_left_def)
qed

text \<open>The graph with one vertex and no edge: connected, every degree (zero) even.\<close>

definition single_vertex :: graph where
  "single_vertex = \<lparr>vertices = [''a''], adj_list = [(''a'', [])]\<rparr>"

lemma single_vertex_valid: "valid_graph single_vertex"
proof -
  let ?al = "adj_list single_vertex"
  have "symmetric ?al"
    unfolding symmetric_keys by (simp add: single_vertex_def nbrs_def)
  moreover have "connected ?al"
    by (simp add: connected_def single_vertex_def)
  moreover have "loops_paired ?al"
    unfolding loops_paired_keys by (simp add: single_vertex_def nbrs_def)
  moreover have "even_degrees ?al"
    unfolding even_degrees_keys by (simp add: single_vertex_def nbrs_def)
  ultimately show ?thesis
    by (simp add: valid_graph_def store_ok_def single_vertex_def)
qed

lemma single_vertex_raises: "hierholzer single_vertex = Inl IndexError"
  by (simp add: hierholzer_def hierholzer_run_def hierholzer_tour_def take_edge_def
      dict_get_def list_pop_def single_vertex_def)

text \<open>The path with one edge between \<open>a\<close> and \<open>b\<close>: both degrees are odd.\<close>

definition path_adj :: adj where
  "path_adj = [(''a'', [''b'']), (''b'', [''a''])]"

lemma path_adj_raises: "hierholzer_tour path_adj ''a'' = Inl IndexError"
  by (simp add: path_adj_def hierholzer_tour_def take_edge_def tour_loop.simps dict_get_def
      list_pop_def list_remove_def)

lemma path_adj_symmetric: "symmetric path_adj"
  unfolding symmetric_keys by (simp add: path_adj_def nbrs_def)

lemma path_adj_removal: "removals path_adj [(''a'', []), (''b'', [])]"
proof -
  have "take_edge path_adj ''a'' = Inr (''b'', [(''a'', []), (''b'', [])])"
    by (simp add: path_adj_def take_edge_def dict_get_def list_pop_def list_remove_def)
  with removals_none show ?thesis by (rule removals_step)
qed

section \<open>The same code on object references\<close>

text \<open>
  Whether \<open>hierholzer\<close> changes the graph it is given depends on which list objects it
  mutates. In this section the neighbour lists are objects of a store, addressed by
  references; the adjacency dictionary maps a vertex label to the reference of its list.
  The source never assigns to an entry of a dictionary or to the vertex list, so these are
  held by value; strings are immutable.
\<close>

type_synonym ref = nat

type_synonym heap = "vertex list list"

type_synonym dict_obj = "(vertex \<times> ref) list"

record graph_obj =
  g_vertices :: "vertex list"
  g_adj_list :: dict_obj

text \<open>
  \<open>copy.deepcopy\<close> of a dictionary of lists of strings: a new dictionary with the same
  keys, and a new list object for every list object reached, a list reached twice being
  copied once (\<open>memo\<close> maps the references already copied to their copies). New objects
  are allocated at the end of the store.
\<close>

fun deepcopy_items :: "heap \<Rightarrow> (ref \<times> ref) list \<Rightarrow> dict_obj \<Rightarrow> heap \<times> dict_obj" where
  "deepcopy_items h memo [] = (h, [])"
| "deepcopy_items h memo ((k, r) # d) =
     (case map_of memo r of
        Some r' \<Rightarrow> (let (h', d') = deepcopy_items h memo d in (h', (k, r') # d'))
      | None \<Rightarrow>
          (let (h', d') = deepcopy_items (h @ [h ! r]) ((r, length h) # memo) d
           in (h', (k, length h) # d')))"

definition deepcopy :: "heap \<Rightarrow> dict_obj \<Rightarrow> heap \<times> dict_obj" where
  "deepcopy h d = deepcopy_items h [] d"

text \<open>
  \<open>d[k]\<close> for a dictionary of references: the list object and its address. A reference
  always denotes an object of the store; the bound check only makes the model total.
\<close>

definition h_get :: "heap \<Rightarrow> dict_obj \<Rightarrow> vertex \<Rightarrow> py_error + (ref \<times> vertex list)" where
  "h_get h d k =
     (case map_of d k of
        None \<Rightarrow> Inl KeyError
      | Some r \<Rightarrow> if r < length h then Inr (r, h ! r) else Inl KeyError)"

text \<open>The pair of statements \<open>pop()\<close> and \<open>remove()\<close> (lines 28-29 and 33-34), mutating
  the two list objects in place. An exception leaves the store as it is at that point.\<close>

definition h_take_edge :: "heap \<Rightarrow> dict_obj \<Rightarrow> vertex \<Rightarrow> (py_error + vertex) \<times> heap" where
  "h_take_edge h d cur =
     (case h_get h d cur of
        Inl e \<Rightarrow> (Inl e, h)
      | Inr (r, xs) \<Rightarrow>
          (case list_pop xs of
             Inl e \<Rightarrow> (Inl e, h)
           | Inr (nxt, xs') \<Rightarrow>
               (let h1 = h[r := xs'] in
                case h_get h1 d nxt of
                  Inl e \<Rightarrow> (Inl e, h1)
                | Inr (r2, ys) \<Rightarrow>
                    (case list_remove cur ys of
                       Inl e \<Rightarrow> (Inl e, h1)
                     | Inr ys' \<Rightarrow> (Inr nxt, h1[r2 := ys'])))))"

definition cells :: "heap \<Rightarrow> nat" where
  "cells h = sum_list (map length h)"

lemma cells_update:
  "r < length h \<Longrightarrow> cells (h[r := xs]) + length (h ! r) = cells h + length xs"
proof (induction h arbitrary: r)
  case Nil
  then show ?case by simp
next
  case (Cons x h)
  then show ?case by (cases r) (auto simp: cells_def)
qed

lemma h_get_Inr: "h_get h d k = Inr (r, xs) \<Longrightarrow> map_of d k = Some r \<and> r < length h \<and> xs = h ! r"
  by (auto simp: h_get_def split: option.splits if_splits)

lemma h_take_edge_cells:
  assumes "h_take_edge h d cur = (Inr nxt, h')"
  shows "cells h' + 2 = cells h"
proof -
  from assms obtain r xs where g1: "h_get h d cur = Inr (r, xs)" and ne: "xs \<noteq> []"
    and nxt: "nxt = last xs"
    by (auto simp: h_take_edge_def list_pop_def Let_def split: sum.splits prod.splits if_splits)
  define h1 where "h1 = h[r := butlast xs]"
  from assms g1 ne obtain r2 ys where g2: "h_get h1 d nxt = Inr (r2, ys)"
    and mem: "cur \<in> set ys" and h': "h' = h1[r2 := remove1 cur ys]"
    by (auto simp: h_take_edge_def list_pop_def list_remove_def Let_def h1_def
        split: sum.splits prod.splits if_splits)
  from h_get_Inr [OF g1] have r: "r < length h" "xs = h ! r" by simp_all
  from h_get_Inr [OF g2] have r2: "r2 < length h1" "ys = h1 ! r2" by simp_all
  have "cells h1 + length xs = cells h + length (butlast xs)"
    unfolding h1_def using cells_update [OF r(1), of "butlast xs"] r(2) by simp
  moreover have "cells h' + length ys = cells h1 + length (remove1 cur ys)"
    unfolding h' using cells_update [OF r2(1), of "remove1 cur ys"] r2(2) by simp
  moreover have "length (remove1 cur ys) + 1 = length ys"
    using mem by (simp add: length_remove1) (cases ys; simp)
  moreover have "length (butlast xs) + 1 = length xs"
    using ne by simp
  ultimately show ?thesis by linarith
qed

text \<open>The \<open>while\<close> loop of \<open>hierholzer_tour\<close> and the function itself.\<close>

function h_tour_loop ::
  "heap \<Rightarrow> dict_obj \<Rightarrow> vertex \<Rightarrow> vertex \<Rightarrow> vertex list \<Rightarrow> (py_error + vertex list) \<times> heap" where
  "h_tour_loop h d start_vertex next_vertex tour =
     (if next_vertex \<noteq> start_vertex then
        (let (res, h') = h_take_edge h d next_vertex in
         case res of
           Inl e \<Rightarrow> (Inl e, h')
         | Inr nxt \<Rightarrow> h_tour_loop h' d start_vertex nxt (tour @ [nxt]))
      else (Inr tour, h))"
  by pat_completeness auto
termination
proof (relation "measure (\<lambda>(h, d, s, n, t). cells h)")
  show "wf (measure (\<lambda>(h, d, s, n, t). cells h))" by simp
next
  fix h :: heap and d :: dict_obj and start_vertex next_vertex :: vertex
    and tour :: "vertex list" and x :: "(py_error + vertex) \<times> heap"
    and res :: "py_error + vertex" and h' :: heap and nxt :: vertex
  assume "x = h_take_edge h d next_vertex" "(res, h') = x" "res = Inr nxt"
  then have "cells h' + 2 = cells h"
    using h_take_edge_cells [of h d next_vertex nxt h'] by simp
  then show "((h', d, start_vertex, nxt, tour @ [nxt]), (h, d, start_vertex, next_vertex, tour))
      \<in> measure (\<lambda>(h, d, s, n, t). cells h)"
    by simp
qed

declare h_tour_loop.simps [simp del]

definition h_hierholzer_tour ::
  "heap \<Rightarrow> dict_obj \<Rightarrow> vertex \<Rightarrow> (py_error + vertex list) \<times> heap" where
  "h_hierholzer_tour h d start_vertex =
     (let (res, h') = h_take_edge h d start_vertex in
      case res of
        Inl e \<Rightarrow> (Inl e, h')
      | Inr next_vertex \<Rightarrow> h_tour_loop h' d start_vertex next_vertex [start_vertex, next_vertex])"

lemma h_tour_loop_cells:
  "h_tour_loop h d s n t = (Inr t', h') \<Longrightarrow> cells h' \<le> cells h"
proof (induction h d s n t rule: h_tour_loop.induct)
  case (1 h d s n t)
  show ?case
  proof (cases "n \<noteq> s")
    case False
    with "1.prems" show ?thesis unfolding h_tour_loop.simps [of h d s n t] by simp
  next
    case True
    obtain r1 h1 where st: "h_take_edge h d n = (r1, h1)" by (cases "h_take_edge h d n")
    show ?thesis
    proof (cases r1)
      case (Inl e)
      with "1.prems" True st show ?thesis
        unfolding h_tour_loop.simps [of h d s n t] by simp
    next
      case (Inr nxt)
      with "1.prems" True st have rest: "h_tour_loop h1 d s nxt (t @ [nxt]) = (Inr t', h')"
        unfolding h_tour_loop.simps [of h d s n t] by simp
      from "1.IH" [OF True st [symmetric] refl Inr rest] h_take_edge_cells [OF st [unfolded Inr]]
      show ?thesis by simp
    qed
  qed
qed

lemma h_hierholzer_tour_cells:
  assumes "h_hierholzer_tour h d s = (Inr t, h')"
  shows "cells h' < cells h"
proof -
  obtain r1 h1 where st: "h_take_edge h d s = (r1, h1)" by (cases "h_take_edge h d s")
  show ?thesis
  proof (cases r1)
    case (Inl e)
    with assms st show ?thesis by (simp add: h_hierholzer_tour_def)
  next
    case (Inr nxt)
    with assms st have "h_tour_loop h1 d s nxt [s, nxt] = (Inr t, h')"
      by (simp add: h_hierholzer_tour_def)
    from h_tour_loop_cells [OF this] h_take_edge_cells [OF st [unfolded Inr]]
    show ?thesis by simp
  qed
qed

text \<open>The outer \<open>for\<close> loop of \<open>hierholzer\<close> and the function itself. The result comes
  with the store as the call leaves it.\<close>

function h_scan_loop ::
  "heap \<Rightarrow> dict_obj \<Rightarrow> vertex list \<Rightarrow> nat \<Rightarrow> (py_error + vertex list) \<times> heap" where
  "h_scan_loop h d tour v_index =
     (if v_index < length tour then
        (case h_get h d (tour ! v_index) of
           Inl e \<Rightarrow> (Inl e, h)
         | Inr (r, ns) \<Rightarrow>
             if length ns \<noteq> 0 then
               (let (res, h') = h_hierholzer_tour h d (tour ! v_index) in
                case res of
                  Inl e \<Rightarrow> (Inl e, h')
                | Inr v_tour \<Rightarrow> h_scan_loop h' d (splice_in tour v_index v_tour) (v_index + 1))
             else h_scan_loop h d tour (v_index + 1))
      else (Inr tour, h))"
  by pat_completeness auto
termination
proof (relation "measures [\<lambda>(h, d, t, i). cells h, \<lambda>(h, d, t, i). length t - i]")
  show "wf (measures [\<lambda>(h, d, t, i). cells h, \<lambda>(h, d, t, i). length t - i])"
    by simp
next
  fix h :: heap and d :: dict_obj and tour :: "vertex list" and v_index :: nat
    and x :: "(py_error + vertex list) \<times> heap" and res :: "py_error + vertex list"
    and h' :: heap and v_tour :: "vertex list"
  assume "x = h_hierholzer_tour h d (tour ! v_index)" "(res, h') = x" "res = Inr v_tour"
  then have "cells h' < cells h"
    using h_hierholzer_tour_cells [of h d "tour ! v_index" v_tour h'] by simp
  then show "((h', d, splice_in tour v_index v_tour, v_index + 1), (h, d, tour, v_index))
      \<in> measures [\<lambda>(h, d, t, i). cells h, \<lambda>(h, d, t, i). length t - i]"
    by simp
next
  fix h :: heap and d :: dict_obj and tour :: "vertex list" and v_index :: nat
  assume "v_index < length tour"
  then show "((h, d, tour, v_index + 1), (h, d, tour, v_index))
      \<in> measures [\<lambda>(h, d, t, i). cells h, \<lambda>(h, d, t, i). length t - i]"
    by simp
qed

declare h_scan_loop.simps [simp del]

definition h_hierholzer :: "heap \<Rightarrow> graph_obj \<Rightarrow> (py_error + vertex list) \<times> heap" where
  "h_hierholzer h g =
     (let (h1, d) = deepcopy h (g_adj_list g) in
      case g_vertices g of
        [] \<Rightarrow> (Inl IndexError, h1)
      | v0 # _ \<Rightarrow>
          (let (res, h2) = h_hierholzer_tour h1 d v0 in
           case res of
             Inl e \<Rightarrow> (Inl e, h2)
           | Inr tour \<Rightarrow> h_scan_loop h2 d tour 0))"

text \<open>The graph by value that a graph object stands for in a store.\<close>

definition abs_adj :: "heap \<Rightarrow> dict_obj \<Rightarrow> adj" where
  "abs_adj h d = map (\<lambda>(k, r). (k, h ! r)) d"

definition graph_of :: "heap \<Rightarrow> graph_obj \<Rightarrow> graph" where
  "graph_of h g = \<lparr>vertices = g_vertices g, adj_list = abs_adj h (g_adj_list g)\<rparr>"

text \<open>A well-formed dictionary of list references: every reference denotes an object of
  the store, and no two vertices share one list object.\<close>

definition refs_ok :: "heap \<Rightarrow> dict_obj \<Rightarrow> bool" where
  "refs_ok h d \<longleftrightarrow> distinct (map snd d) \<and> (\<forall>r \<in> set (map snd d). r < length h)"

definition untouched :: "dict_obj \<Rightarrow> heap \<Rightarrow> heap \<Rightarrow> bool" where
  "untouched d h h' \<longleftrightarrow> length h' = length h \<and> (\<forall>a. a \<notin> set (map snd d) \<longrightarrow> h' ! a = h ! a)"

text \<open>The outcome of a run on references, read as an outcome of the run on values: the
  exception, or the result with the adjacency values the store holds at the end.\<close>

definition lift_result :: "dict_obj \<Rightarrow> (py_error + 'a) \<times> heap \<Rightarrow> py_error + ('a \<times> adj)" where
  "lift_result d p = (case fst p of Inl e \<Rightarrow> Inl e | Inr x \<Rightarrow> Inr (x, abs_adj (snd p) d))"

subsection \<open>What a call leaves untouched\<close>

lemma untouched_refl: "untouched d h h"
  by (simp add: untouched_def)

lemma untouched_trans: "untouched d h h1 \<Longrightarrow> untouched d h1 h2 \<Longrightarrow> untouched d h h2"
  by (simp add: untouched_def)

lemma untouched_update:
  "map_of d k = Some r \<Longrightarrow> untouched d h (h[r := xs])"
proof -
  assume "map_of d k = Some r"
  then have "(k, r) \<in> set d" by (rule map_of_SomeD)
  then have r: "r \<in> set (map snd d)" by force
  have "h[r := xs] ! a = h ! a" if "a \<notin> set (map snd d)" for a
  proof -
    from that r have "a \<noteq> r" by blast
    then show ?thesis by simp
  qed
  then show ?thesis by (simp add: untouched_def)
qed

lemma h_take_edge_untouched:
  assumes "h_take_edge h d cur = (res, h')"
  shows "untouched d h h'"
proof (cases "h_get h d cur")
  case (Inl e)
  with assms show ?thesis by (simp add: h_take_edge_def untouched_refl)
next
  case (Inr p)
  obtain r xs where p: "p = (r, xs)" by (cases p)
  from h_get_Inr [OF Inr [unfolded p]] have r: "map_of d cur = Some r" by simp
  show ?thesis
  proof (cases "list_pop xs")
    case (Inl e)
    with assms Inr p show ?thesis by (simp add: h_take_edge_def untouched_refl)
  next
    case pop: (Inr q)
    obtain nxt xs' where q: "q = (nxt, xs')" by (cases q)
    define h1 where "h1 = h[r := xs']"
    have u1: "untouched d h h1" unfolding h1_def by (rule untouched_update [OF r])
    show ?thesis
    proof (cases "h_get h1 d nxt")
      case (Inl e)
      with assms Inr p pop q have "h' = h1" by (simp add: h_take_edge_def h1_def)
      with u1 show ?thesis by simp
    next
      case get2: (Inr p2)
      obtain r2 ys where p2: "p2 = (r2, ys)" by (cases p2)
      from h_get_Inr [OF get2 [unfolded p2]] have r2: "map_of d nxt = Some r2" by simp
      show ?thesis
      proof (cases "list_remove cur ys")
        case (Inl e)
        with assms Inr p pop q get2 p2 have "h' = h1" by (simp add: h_take_edge_def h1_def)
        with u1 show ?thesis by simp
      next
        case rm: (Inr ys')
        with assms Inr p pop q get2 p2 have "h' = h1[r2 := ys']"
          by (simp add: h_take_edge_def h1_def)
        with u1 untouched_update [OF r2, of h1 ys'] show ?thesis
          by (auto intro: untouched_trans)
      qed
    qed
  qed
qed

lemma h_tour_loop_untouched:
  "h_tour_loop h d s n t = (res, h') \<Longrightarrow> untouched d h h'"
proof (induction h d s n t rule: h_tour_loop.induct)
  case (1 h d s n t)
  show ?case
  proof (cases "n \<noteq> s")
    case False
    with "1.prems" show ?thesis
      unfolding h_tour_loop.simps [of h d s n t] by (simp add: untouched_refl)
  next
    case True
    obtain r1 h1 where st: "h_take_edge h d n = (r1, h1)" by (cases "h_take_edge h d n")
    have u1: "untouched d h h1" by (rule h_take_edge_untouched [OF st])
    show ?thesis
    proof (cases r1)
      case (Inl e)
      with "1.prems" True st have "h' = h1"
        unfolding h_tour_loop.simps [of h d s n t] by simp
      with u1 show ?thesis by simp
    next
      case (Inr nxt)
      with "1.prems" True st have rest: "h_tour_loop h1 d s nxt (t @ [nxt]) = (res, h')"
        unfolding h_tour_loop.simps [of h d s n t] by simp
      from u1 "1.IH" [OF True st [symmetric] refl Inr rest] show ?thesis
        by (rule untouched_trans)
    qed
  qed
qed

lemma h_hierholzer_tour_untouched:
  assumes "h_hierholzer_tour h d s = (res, h')"
  shows "untouched d h h'"
proof -
  obtain r1 h1 where st: "h_take_edge h d s = (r1, h1)" by (cases "h_take_edge h d s")
  have u1: "untouched d h h1" by (rule h_take_edge_untouched [OF st])
  show ?thesis
  proof (cases r1)
    case (Inl e)
    with assms st have "h' = h1" by (simp add: h_hierholzer_tour_def)
    with u1 show ?thesis by simp
  next
    case (Inr nxt)
    with assms st have "h_tour_loop h1 d s nxt [s, nxt] = (res, h')"
      by (simp add: h_hierholzer_tour_def)
    from u1 h_tour_loop_untouched [OF this] show ?thesis by (rule untouched_trans)
  qed
qed

lemma h_scan_loop_untouched:
  "h_scan_loop h d tour i = (res, h') \<Longrightarrow> untouched d h h'"
proof (induction h d tour i rule: h_scan_loop.induct)
  case (1 h d tour i)
  note unf = h_scan_loop.simps [of h d tour i]
  show ?case
  proof (cases "i < length tour")
    case False
    with "1.prems" show ?thesis unfolding unf by (simp add: untouched_refl)
  next
    case True
    show ?thesis
    proof (cases "h_get h d (tour ! i)")
      case (Inl e)
      with "1.prems" True show ?thesis unfolding unf by (simp add: untouched_refl)
    next
      case (Inr p)
      obtain r ns where p: "p = (r, ns)" by (cases p)
      note get = Inr [unfolded p]
      show ?thesis
      proof (cases "length ns \<noteq> 0")
        case False
        with "1.prems" True get have "h_scan_loop h d tour (i + 1) = (res, h')"
          unfolding unf by simp
        then show ?thesis by (rule "1.IH"(2) [OF True get refl False])
      next
        case nonempty: True
        obtain r1 h1 where ht: "h_hierholzer_tour h d (tour ! i) = (r1, h1)"
          by (cases "h_hierholzer_tour h d (tour ! i)")
        have u1: "untouched d h h1" by (rule h_hierholzer_tour_untouched [OF ht])
        show ?thesis
        proof (cases r1)
          case (Inl e)
          with "1.prems" True get nonempty ht have "h' = h1" unfolding unf by simp
          with u1 show ?thesis by simp
        next
          case (Inr vt)
          with "1.prems" True get nonempty ht
          have rest: "h_scan_loop h1 d (splice_in tour i vt) (i + 1) = (res, h')"
            unfolding unf by simp
          from u1 "1.IH"(1) [OF True get refl nonempty ht [symmetric] refl Inr rest]
          show ?thesis by (rule untouched_trans)
        qed
      qed
    qed
  qed
qed

lemma deepcopy_items_fresh:
  "deepcopy_items h memo d = (h', d') \<Longrightarrow> L \<le> length h \<Longrightarrow>
   (\<forall>r' \<in> snd ` set memo. L \<le> r' \<and> r' < length h) \<Longrightarrow>
   (\<exists>new. h' = h @ new) \<and> (\<forall>r' \<in> set (map snd d'). L \<le> r' \<and> r' < length h')"
proof (induction d arbitrary: h memo h' d')
  case Nil
  then show ?case by simp
next
  case (Cons p d)
  obtain k r where p: "p = (k, r)" by (cases p)
  show ?case
  proof (cases "map_of memo r")
    case None
    obtain h2 d2 where rec: "deepcopy_items (h @ [h ! r]) ((r, length h) # memo) d = (h2, d2)"
      by (cases "deepcopy_items (h @ [h ! r]) ((r, length h) # memo) d")
    with Cons.prems(1) p None have res: "h' = h2" "d' = (k, length h) # d2" by simp_all
    have "(\<exists>new. h2 = (h @ [h ! r]) @ new) \<and> (\<forall>r' \<in> set (map snd d2). L \<le> r' \<and> r' < length h2)"
      using Cons.prems(2,3) by (intro Cons.IH [OF rec]) auto
    then obtain new where h2: "h2 = (h @ [h ! r]) @ new"
      and fresh: "\<forall>r' \<in> set (map snd d2). L \<le> r' \<and> r' < length h2" by blast
    from h2 have "h2 = h @ ([h ! r] @ new)" by simp
    moreover have "length h < length h2" using h2 by simp
    ultimately show ?thesis using res fresh Cons.prems(2) by auto
  next
    case (Some r')
    obtain h2 d2 where rec: "deepcopy_items h memo d = (h2, d2)"
      by (cases "deepcopy_items h memo d")
    with Cons.prems(1) p Some have res: "h' = h2" "d' = (k, r') # d2" by simp_all
    from Cons.IH [OF rec Cons.prems(2,3)] obtain new where h2: "h2 = h @ new"
      and fresh: "\<forall>r' \<in> set (map snd d2). L \<le> r' \<and> r' < length h2" by blast
    from Some have "(r, r') \<in> set memo" by (rule map_of_SomeD)
    then have "r' \<in> snd ` set memo" by force
    with Cons.prems(3) have "L \<le> r' \<and> r' < length h" by blast
    with h2 res fresh show ?thesis by auto
  qed
qed

text \<open>The objects that exist before the call are the same after it.\<close>

lemma h_hierholzer_frame:
  assumes "h_hierholzer h g = (res, h')"
  shows "length h \<le> length h' \<and> (\<forall>a < length h. h' ! a = h ! a)"
proof -
  obtain h1 d where dc: "deepcopy h (g_adj_list g) = (h1, d)"
    by (cases "deepcopy h (g_adj_list g)")
  from deepcopy_items_fresh [OF dc [unfolded deepcopy_def], of "length h"]
  obtain new where h1: "h1 = h @ new"
    and fresh: "\<forall>r' \<in> set (map snd d). length h \<le> r' \<and> r' < length h1" by auto
  have "untouched d h1 h'"
  proof (cases "g_vertices g")
    case Nil
    with assms dc show ?thesis by (simp add: h_hierholzer_def untouched_refl)
  next
    case (Cons v0 vs)
    obtain r1 h2 where ht: "h_hierholzer_tour h1 d v0 = (r1, h2)"
      by (cases "h_hierholzer_tour h1 d v0")
    have u1: "untouched d h1 h2" by (rule h_hierholzer_tour_untouched [OF ht])
    show ?thesis
    proof (cases r1)
      case (Inl e)
      with assms dc Cons ht have "h' = h2" by (simp add: h_hierholzer_def)
      with u1 show ?thesis by simp
    next
      case (Inr t)
      with assms dc Cons ht have "h_scan_loop h2 d t 0 = (res, h')"
        by (simp add: h_hierholzer_def)
      from u1 h_scan_loop_untouched [OF this] show ?thesis by (rule untouched_trans)
    qed
  qed
  then have len: "length h' = length h1" and same: "\<forall>a. a \<notin> set (map snd d) \<longrightarrow> h' ! a = h1 ! a"
    by (simp_all add: untouched_def)
  have "\<forall>a < length h. h' ! a = h ! a"
  proof (intro allI impI)
    fix a assume a: "a < length h"
    with fresh have "a \<notin> set (map snd d)" by auto
    with same have "h' ! a = h1 ! a" by blast
    with a h1 show "h' ! a = h ! a" by (simp add: nth_append)
  qed
  with len h1 show ?thesis by simp
qed

subsection \<open>The run on references computes what the run on values computes\<close>

lemma map_of_abs_adj: "map_of (abs_adj h d) k = map_option (\<lambda>r. h ! r) (map_of d k)"
  by (induction d) (auto simp: abs_adj_def)

lemma abs_adj_same:
  "(\<forall>r \<in> set (map snd d). h' ! r = h ! r) \<Longrightarrow> abs_adj h' d = abs_adj h d"
  by (induction d) (auto simp: abs_adj_def)

lemma abs_adj_update:
  "distinct (map snd d) \<Longrightarrow> (\<forall>r \<in> set (map snd d). r < length h) \<Longrightarrow>
   map_of d k = Some r \<Longrightarrow> abs_adj (h[r := xs]) d = AList.update k xs (abs_adj h d)"
proof (induction d)
  case Nil
  then show ?case by simp
next
  case (Cons p d)
  obtain k' r' where p: "p = (k', r')" by (cases p)
  show ?case
  proof (cases "k' = k")
    case True
    with Cons.prems(3) p have r: "r' = r" by simp
    with Cons.prems(1) p have notin: "r \<notin> set (map snd d)" by simp
    have "h[r := xs] ! a = h ! a" if "a \<in> set (map snd d)" for a
      using that notin by (cases "a = r") auto
    then have "\<forall>a \<in> set (map snd d). h[r := xs] ! a = h ! a" by blast
    then have "abs_adj (h[r := xs]) d = abs_adj h d" by (rule abs_adj_same)
    moreover have "r < length h" using Cons.prems(2) p r by simp
    ultimately show ?thesis using True p r by (simp add: abs_adj_def)
  next
    case False
    with Cons.prems(3) p have m: "map_of d k = Some r" by simp
    then have "(k, r) \<in> set d" by (rule map_of_SomeD)
    then have "r \<in> set (map snd d)" by force
    with Cons.prems(1) p have "r' \<noteq> r" by auto
    moreover have "abs_adj (h[r := xs]) d = AList.update k xs (abs_adj h d)"
      using Cons.prems(1,2) m by (intro Cons.IH) simp_all
    ultimately show ?thesis using False p by (simp add: abs_adj_def)
  qed
qed

lemma refs_ok_update: "refs_ok h d \<Longrightarrow> refs_ok (h[r := xs]) d"
  by (simp add: refs_ok_def)

lemma refs_ok_untouched: "refs_ok h d \<Longrightarrow> untouched d h h' \<Longrightarrow> refs_ok h' d"
  by (simp add: refs_ok_def untouched_def)

lemma h_get_sim:
  assumes "refs_ok h d"
  shows "h_get h d k = (case map_of d k of None \<Rightarrow> Inl KeyError | Some r \<Rightarrow> Inr (r, h ! r))"
    and "dict_get (abs_adj h d) k = (case map_of d k of None \<Rightarrow> Inl KeyError | Some r \<Rightarrow> Inr (h ! r))"
proof -
  have "r < length h" if "map_of d k = Some r" for r
  proof -
    from that have "(k, r) \<in> set d" by (rule map_of_SomeD)
    then have "r \<in> set (map snd d)" by force
    with assms show ?thesis unfolding refs_ok_def by blast
  qed
  then show "h_get h d k = (case map_of d k of None \<Rightarrow> Inl KeyError | Some r \<Rightarrow> Inr (r, h ! r))"
    by (auto simp: h_get_def split: option.splits)
  show "dict_get (abs_adj h d) k = (case map_of d k of None \<Rightarrow> Inl KeyError | Some r \<Rightarrow> Inr (h ! r))"
    by (simp add: dict_get_def map_of_abs_adj split: option.splits)
qed

text \<open>One edge removal: the same outcome, and on success the same adjacency values.\<close>

lemma h_take_edge_sim:
  assumes ok: "refs_ok h d" and run: "h_take_edge h d cur = (res, h')"
  shows "case res of
           Inl e \<Rightarrow> take_edge (abs_adj h d) cur = Inl e
         | Inr nxt \<Rightarrow> take_edge (abs_adj h d) cur = Inr (nxt, abs_adj h' d)"
proof (cases "map_of d cur")
  case None
  with run ok show ?thesis
    by (auto simp: h_take_edge_def take_edge_def h_get_sim)
next
  case (Some r)
  note g1 = h_get_sim [OF ok, of cur, unfolded Some, simplified]
  show ?thesis
  proof (cases "h ! r = []")
    case True
    with run g1 show ?thesis
      by (auto simp: h_take_edge_def take_edge_def list_pop_def)
  next
    case False
    define nxt where "nxt = last (h ! r)"
    define h1 where "h1 = h[r := butlast (h ! r)]"
    have ok1: "refs_ok h1 d" unfolding h1_def by (rule refs_ok_update [OF ok])
    have abs1: "abs_adj h1 d = AList.update cur (butlast (h ! r)) (abs_adj h d)"
      unfolding h1_def using ok Some by (intro abs_adj_update) (simp_all add: refs_ok_def)
    show ?thesis
    proof (cases "map_of d nxt")
      case None
      with run g1 False ok1 show ?thesis
        by (auto simp: h_take_edge_def take_edge_def list_pop_def Let_def h_get_sim
            nxt_def [symmetric] h1_def [symmetric] abs1 [symmetric])
    next
      case r2: (Some r2)
      note g2 = h_get_sim [OF ok1, of nxt, unfolded r2, simplified]
      show ?thesis
      proof (cases "cur \<in> set (h1 ! r2)")
        case notin: False
        with run g1 g2 False show ?thesis
          by (auto simp: h_take_edge_def take_edge_def list_pop_def list_remove_def Let_def
              nxt_def [symmetric] h1_def [symmetric] abs1 [symmetric])
      next
        case True
        have abs2: "abs_adj (h1[r2 := remove1 cur (h1 ! r2)]) d =
            AList.update nxt (remove1 cur (h1 ! r2)) (abs_adj h1 d)"
          using ok1 r2 by (intro abs_adj_update) (simp_all add: refs_ok_def)
        from run g1 g2 False True show ?thesis
          by (auto simp: h_take_edge_def take_edge_def list_pop_def list_remove_def Let_def
              nxt_def [symmetric] h1_def [symmetric] abs1 [symmetric] abs2)
      qed
    qed
  qed
qed

lemma take_edge_lift:
  assumes "refs_ok h d"
  shows "take_edge (abs_adj h d) cur = lift_result d (h_take_edge h d cur)"
proof -
  obtain res h' where run: "h_take_edge h d cur = (res, h')" by (cases "h_take_edge h d cur")
  from h_take_edge_sim [OF assms run] show ?thesis
    unfolding run by (cases res) (simp_all add: lift_result_def)
qed

lemma tour_loop_lift:
  "refs_ok h d \<Longrightarrow> tour_loop (abs_adj h d) s n t = lift_result d (h_tour_loop h d s n t)"
proof (induction h d s n t rule: h_tour_loop.induct)
  case (1 h d s n t)
  note unf = tour_loop.simps [of "abs_adj h d" s n t] and h_unf = h_tour_loop.simps [of h d s n t]
  show ?case
  proof (cases "n \<noteq> s")
    case False
    then show ?thesis unfolding unf h_unf by (simp add: lift_result_def)
  next
    case True
    obtain r1 h1 where st: "h_take_edge h d n = (r1, h1)" by (cases "h_take_edge h d n")
    have te: "take_edge (abs_adj h d) n = lift_result d (r1, h1)"
      using take_edge_lift [OF "1.prems", of n] st by simp
    show ?thesis
    proof (cases r1)
      case (Inl e)
      with True st te show ?thesis unfolding unf h_unf by (simp add: lift_result_def)
    next
      case (Inr nxt)
      have ok1: "refs_ok h1 d"
        using "1.prems" h_take_edge_untouched [OF st] by (rule refs_ok_untouched)
      have "tour_loop (abs_adj h1 d) s nxt (t @ [nxt]) =
          lift_result d (h_tour_loop h1 d s nxt (t @ [nxt]))"
        by (rule "1.IH" [OF True st [symmetric] refl Inr ok1])
      with True st te Inr show ?thesis unfolding unf h_unf by (simp add: lift_result_def)
    qed
  qed
qed

lemma hierholzer_tour_lift:
  assumes "refs_ok h d"
  shows "hierholzer_tour (abs_adj h d) s = lift_result d (h_hierholzer_tour h d s)"
proof -
  obtain r1 h1 where st: "h_take_edge h d s = (r1, h1)" by (cases "h_take_edge h d s")
  have te: "take_edge (abs_adj h d) s = lift_result d (r1, h1)"
    using take_edge_lift [OF assms, of s] st by simp
  show ?thesis
  proof (cases r1)
    case (Inl e)
    with st te show ?thesis
      by (simp add: hierholzer_tour_def h_hierholzer_tour_def lift_result_def)
  next
    case (Inr nxt)
    have ok1: "refs_ok h1 d"
      using assms h_take_edge_untouched [OF st] by (rule refs_ok_untouched)
    from tour_loop_lift [OF ok1, of s nxt "[s, nxt]"] st te Inr show ?thesis
      by (simp add: hierholzer_tour_def h_hierholzer_tour_def lift_result_def)
  qed
qed

lemma scan_loop_lift:
  "refs_ok h d \<Longrightarrow> scan_loop (abs_adj h d) tour i = lift_result d (h_scan_loop h d tour i)"
proof (induction h d tour i rule: h_scan_loop.induct)
  case (1 h d tour i)
  note unf = scan_loop.simps [of "abs_adj h d" tour i] and h_unf = h_scan_loop.simps [of h d tour i]
  note ok = "1.prems"
  show ?case
  proof (cases "i < length tour")
    case False
    then show ?thesis unfolding unf h_unf by (simp add: lift_result_def)
  next
    case True
    show ?thesis
    proof (cases "map_of d (tour ! i)")
      case None
      with True show ?thesis
        unfolding unf h_unf by (simp add: h_get_sim [OF ok] lift_result_def)
    next
      case (Some r)
      have get: "h_get h d (tour ! i) = Inr (r, h ! r)"
        and dget: "dict_get (abs_adj h d) (tour ! i) = Inr (h ! r)"
        using Some by (simp_all add: h_get_sim [OF ok])
      show ?thesis
      proof (cases "length (h ! r) \<noteq> 0")
        case False
        have "scan_loop (abs_adj h d) tour (i + 1) = lift_result d (h_scan_loop h d tour (i + 1))"
          by (rule "1.IH"(2) [OF True get refl False ok])
        with True get dget False show ?thesis unfolding unf h_unf by simp
      next
        case nonempty: True
        obtain r1 h1 where ht: "h_hierholzer_tour h d (tour ! i) = (r1, h1)"
          by (cases "h_hierholzer_tour h d (tour ! i)")
        have sim: "hierholzer_tour (abs_adj h d) (tour ! i) = lift_result d (r1, h1)"
          using hierholzer_tour_lift [OF ok, of "tour ! i"] ht by simp
        show ?thesis
        proof (cases r1)
          case (Inl e)
          with True get dget nonempty ht sim show ?thesis
            unfolding unf h_unf by (simp add: lift_result_def)
        next
          case (Inr vt)
          have ok1: "refs_ok h1 d"
            using ok h_hierholzer_tour_untouched [OF ht] by (rule refs_ok_untouched)
          have "scan_loop (abs_adj h1 d) (splice_in tour i vt) (i + 1) =
              lift_result d (h_scan_loop h1 d (splice_in tour i vt) (i + 1))"
            by (rule "1.IH"(1) [OF True get refl nonempty ht [symmetric] refl Inr ok1])
          with True get dget nonempty ht sim Inr show ?thesis
            unfolding unf h_unf by (simp add: lift_result_def)
        qed
      qed
    qed
  qed
qed

lemma deepcopy_items_abs:
  "deepcopy_items h memo d = (h', d') \<Longrightarrow> distinct (map snd d) \<Longrightarrow>
   (\<forall>r \<in> set (map snd d). r < length h \<and> map_of memo r = None) \<Longrightarrow>
   abs_adj h' d' = abs_adj h d \<and> distinct (map snd d') \<and>
   (\<forall>r' \<in> set (map snd d'). length h \<le> r' \<and> r' < length h') \<and> (\<exists>new. h' = h @ new)"
proof (induction d arbitrary: h memo h' d')
  case Nil
  then show ?case by (simp add: abs_adj_def)
next
  case (Cons p d)
  obtain k r where p: "p = (k, r)" by (cases p)
  from Cons.prems(3) p have r: "r < length h" "map_of memo r = None" by simp_all
  from Cons.prems(2) p have notin: "r \<notin> set (map snd d)" and dist: "distinct (map snd d)"
    by simp_all
  let ?h1 = "h @ [h ! r]"
  obtain h2 d2 where rec: "deepcopy_items ?h1 ((r, length h) # memo) d = (h2, d2)"
    by (cases "deepcopy_items ?h1 ((r, length h) # memo) d")
  with Cons.prems(1) p r have res: "h' = h2" "d' = (k, length h) # d2" by simp_all
  have pre: "\<forall>a \<in> set (map snd d). a < length ?h1 \<and> map_of ((r, length h) # memo) a = None"
  proof
    fix a assume a: "a \<in> set (map snd d)"
    with notin have "a \<noteq> r" by blast
    moreover from a Cons.prems(3) have "a < length h \<and> map_of memo a = None"
      by (metis list.set_intros(2) list.simps(9))
    ultimately show "a < length ?h1 \<and> map_of ((r, length h) # memo) a = None" by simp
  qed
  from Cons.IH [OF rec dist pre] obtain new where
    abs2: "abs_adj h2 d2 = abs_adj ?h1 d" and dist2: "distinct (map snd d2)" and
    fresh2: "\<forall>r' \<in> set (map snd d2). length ?h1 \<le> r' \<and> r' < length h2" and
    h2: "h2 = ?h1 @ new"
    by blast
  have "?h1 ! a = h ! a" if "a \<in> set (map snd d)" for a
  proof -
    from that Cons.prems(3) have "a < length h"
      by (metis list.set_intros(2) list.simps(9))
    then show ?thesis by (simp add: nth_append)
  qed
  then have "\<forall>a \<in> set (map snd d). ?h1 ! a = h ! a" by blast
  then have abs1: "abs_adj ?h1 d = abs_adj h d" by (rule abs_adj_same)
  have cell: "h2 ! length h = h ! r" unfolding h2 by (simp add: nth_append)
  have "length h \<notin> set (map snd d2)" using fresh2 by auto
  moreover have "length h < length h2" unfolding h2 by simp
  moreover have "h2 = h @ ([h ! r] @ new)" unfolding h2 by simp
  ultimately show ?case
    using res p abs2 abs1 cell dist2 fresh2 by (auto simp: abs_adj_def)
qed

lemma deepcopy_abs:
  assumes "refs_ok h d" "deepcopy h d = (h', d')"
  shows "abs_adj h' d' = abs_adj h d \<and> refs_ok h' d'"
proof -
  from assms(1) have "distinct (map snd d)" "\<forall>r \<in> set (map snd d). r < length h \<and> map_of [] r = None"
    by (simp_all add: refs_ok_def)
  from deepcopy_items_abs [OF assms(2) [unfolded deepcopy_def] this] show ?thesis
    by (auto simp: refs_ok_def)
qed

text \<open>\<open>hierholzer\<close> on a graph object returns what \<open>hierholzer\<close> returns on the graph it
  stands for.\<close>

lemma hierholzer_lift:
  assumes "refs_ok h (g_adj_list g)"
  shows "fst (h_hierholzer h g) = hierholzer (graph_of h g)"
proof -
  obtain h1 d where dc: "deepcopy h (g_adj_list g) = (h1, d)"
    by (cases "deepcopy h (g_adj_list g)")
  from deepcopy_abs [OF assms dc] have abs: "abs_adj h1 d = abs_adj h (g_adj_list g)"
    and ok1: "refs_ok h1 d" by simp_all
  show ?thesis
  proof (cases "g_vertices g")
    case Nil
    with dc show ?thesis
      by (simp add: h_hierholzer_def hierholzer_def hierholzer_run_def graph_of_def)
  next
    case (Cons v0 vs)
    obtain r1 h2 where ht: "h_hierholzer_tour h1 d v0 = (r1, h2)"
      by (cases "h_hierholzer_tour h1 d v0")
    have sim: "hierholzer_tour (abs_adj h1 d) v0 = lift_result d (r1, h2)"
      using hierholzer_tour_lift [OF ok1, of v0] ht by simp
    show ?thesis
    proof (cases r1)
      case (Inl e)
      with dc Cons ht sim abs show ?thesis
        by (simp add: h_hierholzer_def hierholzer_def hierholzer_run_def graph_of_def
            lift_result_def)
    next
      case (Inr t)
      have ok2: "refs_ok h2 d"
        using ok1 h_hierholzer_tour_untouched [OF ht] by (rule refs_ok_untouched)
      obtain r3 h3 where sc: "h_scan_loop h2 d t 0 = (r3, h3)"
        by (cases "h_scan_loop h2 d t 0")
      from scan_loop_lift [OF ok2, of t 0] sc
      have "scan_loop (abs_adj h2 d) t 0 = lift_result d (r3, h3)" by simp
      with dc Cons ht sim abs Inr sc show ?thesis
        by (cases r3)
          (simp_all add: h_hierholzer_def hierholzer_def hierholzer_run_def graph_of_def
            lift_result_def)
    qed
  qed
qed

subsection \<open>Example graph objects\<close>

text \<open>The two triangles and the graph with one vertex as graph objects in a store.\<close>

definition tt_heap :: heap where
  "tt_heap = [[''b'', ''c'', ''d'', ''e''], [''a'', ''c''], [''b'', ''a''], [''a'', ''e''],
              [''d'', ''a'']]"

definition tt_obj :: graph_obj where
  "tt_obj = \<lparr>g_vertices = [''a'', ''b'', ''c'', ''d'', ''e''],
             g_adj_list = [(''a'', 0), (''b'', 1), (''c'', 2), (''d'', 3), (''e'', 4)]\<rparr>"

definition sv_obj :: graph_obj where
  "sv_obj = \<lparr>g_vertices = [''a''], g_adj_list = [(''a'', 0)]\<rparr>"

lemma tt_graph_of: "graph_of tt_heap tt_obj = two_triangles"
  by (simp add: graph_of_def abs_adj_def tt_heap_def tt_obj_def two_triangles_def)

lemma tt_refs_ok: "refs_ok tt_heap (g_adj_list tt_obj)"
  by (simp add: refs_ok_def tt_heap_def tt_obj_def)

lemma tt_run:
  "h_hierholzer tt_heap tt_obj =
     (Inr [''a'', ''c'', ''b'', ''a'', ''e'', ''d'', ''a''], tt_heap @ [[], [], [], [], []])"
  by (simp add: h_hierholzer_def deepcopy_def tt_heap_def tt_obj_def h_hierholzer_tour_def
      h_take_edge_def h_get_def h_tour_loop.simps h_scan_loop.simps list_pop_def
      list_remove_def splice_in_def list_insert_def)

lemma sv_graph_of: "graph_of [[]] sv_obj = single_vertex"
  by (simp add: graph_of_def abs_adj_def sv_obj_def single_vertex_def)

lemma sv_run: "h_hierholzer [[]] sv_obj = (Inl IndexError, [[], []])"
  by (simp add: h_hierholzer_def deepcopy_def sv_obj_def h_hierholzer_tour_def
      h_take_edge_def h_get_def list_pop_def)

lemma sv_run_again: "h_hierholzer [[], []] sv_obj = (Inl IndexError, [[], [], []])"
  by (simp add: h_hierholzer_def deepcopy_def sv_obj_def h_hierholzer_tour_def
      h_take_edge_def h_get_def list_pop_def)

section \<open>The claims\<close>

text \<open>
  C1 (amended). For every connected graph with at least one edge in which every vertex has
  even degree, \<open>hierholzer\<close> returns a tour whose consecutive pairs \<open>(t[i], t[i+1])\<close>,
  taken as undirected edges (each pair counted in both directions), are exactly the edge
  multiset of the graph (each edge being stored as its two arcs): every edge is used once,
  none twice, none is missing. The pair that wraps from the last element to the first is
  not among them.
\<close>

theorem hierholzer_edge_complete:
  assumes "valid_graph g" and "0 < num_edges g"
  shows "\<exists>t. hierholzer g = Inr t \<and> undirected (tour_pairs t) = arcs (adj_list g)"
proof -
  from hierholzer_run_correct [OF assms] obtain t al' where
    "hierholzer_run g = Inr (t, al')" "undirected (tour_pairs t) = arcs (adj_list g)"
    by blast
  then show ?thesis by (simp add: hierholzer_def)
qed

theorem hierholzer_edge_complete_witness:
  "valid_graph two_triangles \<and> 0 < num_edges two_triangles \<and>
   (\<exists>t. hierholzer two_triangles = Inr t \<and>
        undirected (tour_pairs t) = arcs (adj_list two_triangles))"
  using hierholzer_edge_complete [OF two_triangles_valid] two_triangles_valid
  by (simp add: two_triangles_edges)

text \<open>
  The claim as stated fails twice. With the wrap from the last element to the first
  counted, the tour of the two triangles has seven pairs, one of them \<open>(a, a)\<close>, for
  six edges. And the graph with one vertex and no edge is connected with every degree
  even, yet \<open>hierholzer\<close> raises \<open>IndexError\<close> on it and returns no tour.
\<close>

theorem hierholzer_edge_complete_counterexample:
  "valid_graph two_triangles \<and>
   hierholzer two_triangles = Inr [''a'', ''c'', ''b'', ''a'', ''e'', ''d'', ''a''] \<and>
   undirected (tour_pairs_wrap [''a'', ''c'', ''b'', ''a'', ''e'', ''d'', ''a''])
     \<noteq> arcs (adj_list two_triangles) \<and>
   valid_graph single_vertex \<and> hierholzer single_vertex = Inl IndexError"
proof -
  let ?t = "[''a'', ''c'', ''b'', ''a'', ''e'', ''d'', ''a'']"
  have "size (undirected (tour_pairs_wrap ?t)) = 14"
    by (simp add: size_undirected tour_pairs_wrap_def)
  moreover have "size (arcs (adj_list two_triangles)) = 12"
    by (simp add: size_arcs slots_def two_triangles_def)
  ultimately have "undirected (tour_pairs_wrap ?t) \<noteq> arcs (adj_list two_triangles)"
    by auto
  then show ?thesis
    using two_triangles_valid two_triangles_tour single_vertex_valid single_vertex_raises
    by simp
qed

text \<open>
  C2 (amended). For every connected graph with at least one edge in which every vertex has
  even degree, \<open>hierholzer\<close> returns a tour whose first and last elements are equal.
\<close>

theorem hierholzer_closed:
  assumes "valid_graph g" and "0 < num_edges g"
  shows "\<exists>t. hierholzer g = Inr t \<and> t \<noteq> [] \<and> hd t = last t"
proof -
  from hierholzer_run_correct [OF assms] obtain t al' where
    "hierholzer_run g = Inr (t, al')" "t \<noteq> []" "hd t = hd (vertices g)"
    "last t = hd (vertices g)"
    by blast
  then show ?thesis by (simp add: hierholzer_def)
qed

theorem hierholzer_closed_witness:
  "valid_graph two_triangles \<and> 0 < num_edges two_triangles \<and>
   (\<exists>t. hierholzer two_triangles = Inr t \<and> t \<noteq> [] \<and> hd t = last t)"
  using hierholzer_closed [OF two_triangles_valid] two_triangles_valid
  by (simp add: two_triangles_edges)

text \<open>The graph with one vertex and no edge is a valid input on which no tour is
  returned: \<open>pop()\<close> on the empty list of the start vertex raises \<open>IndexError\<close>.\<close>

theorem hierholzer_closed_counterexample:
  "valid_graph single_vertex \<and> hierholzer single_vertex = Inl IndexError"
  using single_vertex_valid single_vertex_raises by simp

text \<open>
  C3 (amended). For every connected graph with at least one edge in which every vertex has
  even degree, the tour \<open>hierholzer\<close> returns has length \<open>|E| + 1\<close>, where \<open>|E|\<close>, the
  number of edges, is half the number of arcs.
\<close>

theorem hierholzer_length:
  assumes "valid_graph g" and "0 < num_edges g"
  shows "\<exists>t. hierholzer g = Inr t \<and> length t = num_edges g + 1 \<and>
             size (arcs (adj_list g)) = 2 * num_edges g"
proof -
  from hierholzer_run_correct [OF assms] obtain t al' where
    "hierholzer_run g = Inr (t, al')" "length t = num_edges g + 1"
    by blast
  then show ?thesis
    using slots_even [OF assms(1)] by (simp add: hierholzer_def size_arcs)
qed

theorem hierholzer_length_witness:
  "valid_graph two_triangles \<and> 0 < num_edges two_triangles \<and>
   (\<exists>t. hierholzer two_triangles = Inr t \<and> length t = 7)"
  using hierholzer_length [OF two_triangles_valid] two_triangles_valid
  by (auto simp: two_triangles_edges)

text \<open>For the graph with one vertex and no edge, \<open>|E| + 1 = 1\<close>, but no sequence is
  returned.\<close>

theorem hierholzer_length_counterexample:
  "valid_graph single_vertex \<and> num_edges single_vertex + 1 = 1 \<and>
   hierholzer single_vertex = Inl IndexError"
  using single_vertex_valid single_vertex_raises
  by (simp add: num_edges_def slots_def single_vertex_def)

text \<open>
  C4 (amended). For every symmetric adjacency store in which every vertex has even
  remaining degree and every starting vertex \<open>s\<close> with at least one unused incident
  edge, \<open>hierholzer_tour\<close> returns a closed walk: a sequence of at least two vertices
  whose first and last element is \<open>s\<close> and in which every vertex is followed by one of
  its neighbours. The store it leaves has the same keys, and what was removed from it is
  exactly one occurrence of every traversed edge at both endpoints: the arcs before are
  the arcs after together with the pairs of the walk in both directions.
\<close>

theorem hierholzer_tour_closed_walk:
  assumes "store_ok al" and "even_degrees al" and "nbrs al s \<noteq> []"
  shows "\<exists>t al'. hierholzer_tour al s = Inr (t, al') \<and> 2 \<le> length t \<and>
      hd t = s \<and> last t = s \<and> (\<forall>(u, v) \<in> set (tour_pairs t). v \<in> set (nbrs al u)) \<and>
      map fst al' = map fst al \<and> arcs al = arcs al' + undirected (tour_pairs t)"
proof -
  from hierholzer_tour_correct [OF assms] obtain t al' where
    run: "hierholzer_tour al s = Inr (t, al')" "2 \<le> length t" "hd t = s" "last t = s"
      "map fst al' = map fst al" and
    cons: "arcs al = arcs al' + undirected (tour_pairs t)"
    by blast
  have d: "distinct (map fst al)" using assms(1) by (simp add: store_ok_def)
  have "v \<in> set (nbrs al u)" if "(u, v) \<in> set (tour_pairs t)" for u v
  proof -
    from that have "(u, v) \<in># undirected (tour_pairs t)" by (simp add: undirected_def)
    then have "(u, v) \<in># arcs al" by (simp add: cons)
    then show ?thesis by (simp add: mem_nbrs_arcs [OF d])
  qed
  then have "\<forall>(u, v) \<in> set (tour_pairs t). v \<in> set (nbrs al u)" by blast
  with run cons show ?thesis by blast
qed

theorem hierholzer_tour_closed_walk_witness:
  "store_ok one_triangle_left \<and> even_degrees one_triangle_left \<and>
   nbrs one_triangle_left ''a'' \<noteq> [] \<and>
   (\<exists>t al'. hierholzer_tour one_triangle_left ''a'' = Inr (t, al') \<and> 2 \<le> length t \<and>
      hd t = ''a'' \<and> last t = ''a'' \<and> map fst al' = map fst one_triangle_left \<and>
      arcs one_triangle_left = arcs al' + undirected (tour_pairs t))"
proof -
  have ne: "nbrs one_triangle_left ''a'' \<noteq> []"
    by (simp add: one_triangle_left_def nbrs_def)
  from one_triangle_left_ok have ok: "store_ok one_triangle_left"
    and ev: "even_degrees one_triangle_left" by simp_all
  from hierholzer_tour_closed_walk [OF ok ev ne] ok ev ne show ?thesis by blast
qed

text \<open>Without even degrees the walk dead-ends: on the path with the one edge \<open>a - b\<close>,
  started at \<open>a\<close>, which has an unused edge, the walk reaches \<open>b\<close> and \<open>pop()\<close> raises
  \<open>IndexError\<close> on the empty list of \<open>b\<close>.\<close>

theorem hierholzer_tour_closed_walk_counterexample:
  "nbrs path_adj ''a'' \<noteq> [] \<and> hierholzer_tour path_adj ''a'' = Inl IndexError"
  using path_adj_raises by (simp add: path_adj_def nbrs_def)

text \<open>
  C5. Where \<open>v_index\<close> is a position of the master tour and \<open>v_tour\<close> a sub-tour that
  starts and ends with the vertex at that position, the reversed insertion loop turns the
  master tour into \<open>tour[0..v_index] ++ v_tour ++ tour[v_index+1..]\<close>: the one
  occurrence of the vertex is replaced by the sub-tour. The length grows by
  \<open>len(v_tour) - 1\<close>, the first and the last element stay, so a closed tour stays
  closed.
\<close>

theorem splice_replaces_vertex:
  assumes "v_index < length tour" and "v_tour \<noteq> []"
    and "hd v_tour = tour ! v_index" and "last v_tour = tour ! v_index"
  shows "splice_in tour v_index v_tour =
           take v_index tour @ v_tour @ drop (v_index + 1) tour \<and>
         length (splice_in tour v_index v_tour) = length tour + length v_tour - 1 \<and>
         hd (splice_in tour v_index v_tour) = hd tour \<and>
         last (splice_in tour v_index v_tour) = last tour"
proof -
  have eq: "splice_in tour v_index v_tour = take v_index tour @ v_tour @ drop (Suc v_index) tour"
    by (rule splice_replace [OF assms(1,2,3)])
  have "length (take v_index tour @ v_tour @ drop (Suc v_index) tour) =
      length tour + length v_tour - 1"
    using assms(1) by simp
  with eq splice_ends [OF assms(1,3,4,2)] show ?thesis by simp
qed

theorem splice_replaces_vertex_witness:
  "(0::nat) < length [''a'', ''e'', ''d'', ''a''] \<and> [''a'', ''c'', ''b'', ''a''] \<noteq> [] \<and>
   hd [''a'', ''c'', ''b'', ''a''] = [''a'', ''e'', ''d'', ''a''] ! 0 \<and>
   last [''a'', ''c'', ''b'', ''a''] = [''a'', ''e'', ''d'', ''a''] ! 0 \<and>
   splice_in [''a'', ''e'', ''d'', ''a''] 0 [''a'', ''c'', ''b'', ''a''] =
     [''a'', ''c'', ''b'', ''a'', ''e'', ''d'', ''a'']"
  using splice_replaces_vertex [of 0 "[''a'', ''e'', ''d'', ''a'']" "[''a'', ''c'', ''b'', ''a'']"]
  by simp

text \<open>
  C6 (amended). In a symmetric adjacency store in which every vertex has even remaining
  degree, \<open>hierholzer_tour\<close>, started at a vertex \<open>s\<close> with at least one unused incident
  edge, returns, and the walk it returns ends at \<open>s\<close>: it dead-ends at no other vertex.
  The walk takes at most as many steps as there are edges. The outer loop of
  \<open>hierholzer\<close>, run on any tour over the vertices of the store, returns as well, and
  when it ends every vertex of the master tour has no unused incident edge left; from the
  moment every vertex of the tour is exhausted it changes nothing any more.
  (Both loops are total functions: their termination is proved where they are defined.)
\<close>

theorem walk_returns_and_scan_ends:
  assumes "store_ok al" and "even_degrees al"
  shows "(nbrs al s \<noteq> [] \<longrightarrow>
           (\<exists>t al'. hierholzer_tour al s = Inr (t, al') \<and> last t = s \<and>
              2 * (length t - 1) \<le> slots al)) \<and>
         (set tour \<subseteq> set (map fst al) \<longrightarrow>
           (\<exists>t' al'. scan_loop al tour 0 = Inr (t', al') \<and> (\<forall>v \<in> set t'. nbrs al' v = []))) \<and>
         (set rest \<subseteq> set (map fst al) \<and> (\<forall>v \<in> set rest. nbrs al v = []) \<longrightarrow>
           scan_loop al rest i = Inr (rest, al))"
proof (intro conjI impI)
  assume "nbrs al s \<noteq> []"
  from hierholzer_tour_correct [OF assms this] obtain t al' where
    run: "hierholzer_tour al s = Inr (t, al')" "last t = s" and
    cons: "arcs al = arcs al' + undirected (tour_pairs t)"
    by blast
  have "size (arcs al) = size (arcs al') + size (undirected (tour_pairs t))"
    by (simp add: cons)
  then have "2 * (length t - 1) \<le> slots al"
    by (simp add: size_arcs size_undirected length_tour_pairs)
  with run show "\<exists>t al'. hierholzer_tour al s = Inr (t, al') \<and> last t = s \<and>
      2 * (length t - 1) \<le> slots al"
    by blast
next
  assume "set tour \<subseteq> set (map fst al)"
  then have "\<exists>t' al'. scan_loop al tour 0 = Inr (t', al') \<and> store_ok al' \<and> even_degrees al' \<and>
      map fst al' = map fst al \<and> (\<forall>v \<in> set t'. nbrs al' v = []) \<and>
      (tour \<noteq> [] \<longrightarrow> t' \<noteq> [] \<and> hd t' = hd tour \<and> last t' = last tour) \<and>
      arcs al + undirected (tour_pairs tour) = arcs al' + undirected (tour_pairs t')"
    by (intro scan_loop_correct [OF assms]) simp_all
  then show "\<exists>t' al'. scan_loop al tour 0 = Inr (t', al') \<and> (\<forall>v \<in> set t'. nbrs al' v = [])"
    by blast
next
  assume "set rest \<subseteq> set (map fst al) \<and> (\<forall>v \<in> set rest. nbrs al v = [])"
  then show "scan_loop al rest i = Inr (rest, al)"
    by (intro scan_loop_exhausted) simp_all
qed

theorem walk_returns_and_scan_ends_witness:
  "store_ok one_triangle_left \<and> even_degrees one_triangle_left \<and>
   nbrs one_triangle_left ''a'' \<noteq> [] \<and>
   set [''a'', ''e'', ''d'', ''a''] \<subseteq> set (map fst one_triangle_left) \<and>
   set [''d'', ''e''] \<subseteq> set (map fst one_triangle_left) \<and>
   nbrs one_triangle_left ''d'' = [] \<and> nbrs one_triangle_left ''e'' = [] \<and>
   (\<exists>t al'. hierholzer_tour one_triangle_left ''a'' = Inr (t, al') \<and> last t = ''a'' \<and>
      2 * (length t - 1) \<le> slots one_triangle_left) \<and>
   (\<exists>t' al'. scan_loop one_triangle_left [''a'', ''e'', ''d'', ''a''] 0 = Inr (t', al') \<and>
      (\<forall>v \<in> set t'. nbrs al' v = [])) \<and>
   scan_loop one_triangle_left [''d'', ''e''] 0 = Inr ([''d'', ''e''], one_triangle_left)"
proof -
  have ne: "nbrs one_triangle_left ''a'' \<noteq> []"
    by (simp add: one_triangle_left_def nbrs_def)
  have sub: "set [''a'', ''e'', ''d'', ''a''] \<subseteq> set (map fst one_triangle_left)"
    "set [''d'', ''e''] \<subseteq> set (map fst one_triangle_left)"
    by (simp_all add: one_triangle_left_def)
  have emp: "nbrs one_triangle_left ''d'' = []" "nbrs one_triangle_left ''e'' = []"
    by (simp_all add: one_triangle_left_def nbrs_def)
  then have exh: "\<forall>v \<in> set [''d'', ''e'']. nbrs one_triangle_left v = []" by simp
  from one_triangle_left_ok have ok: "store_ok one_triangle_left"
    and ev: "even_degrees one_triangle_left" by simp_all
  from walk_returns_and_scan_ends
    [OF ok ev, of "''a''" "[''a'', ''e'', ''d'', ''a'']" "[''d'', ''e'']" 0]
    ok ev ne sub emp exh
  show ?thesis by blast
qed

text \<open>Started at a vertex without an unused edge, \<open>hierholzer_tour\<close> does not return to
  it: in the store of the graph with one vertex and no edge (connected, every degree
  even) it raises \<open>IndexError\<close>.\<close>

theorem walk_returns_and_scan_ends_counterexample:
  "store_ok (adj_list single_vertex) \<and> even_degrees (adj_list single_vertex) \<and>
   connected (adj_list single_vertex) \<and>
   hierholzer_tour (adj_list single_vertex) ''a'' = Inl IndexError"
proof -
  have "hierholzer_tour (adj_list single_vertex) ''a'' = Inl IndexError"
    by (simp add: single_vertex_def hierholzer_tour_def take_edge_def dict_get_def list_pop_def)
  with single_vertex_valid show ?thesis by (simp add: valid_graph_def)
qed

text \<open>
  C7 (amended). \<open>hierholzer\<close> never mutates the graph it is given: it works on a deep
  copy, so every list object that exists before the call is the same after it, whatever
  the call returns or raises. For a graph object whose vertices do not share a list,
  the graph is therefore the same after the call, the call returns what \<open>hierholzer\<close>
  returns on that graph, and a second call on the same object has the same outcome as the
  first. For a connected graph with at least one edge in which every vertex has even
  degree the two outcomes are tours, each closed, each using every edge exactly once (in
  its consecutive pairs, the wrap pair not counted) and each of length \<open>|E| + 1\<close>.
\<close>

theorem hierholzer_leaves_graph:
  assumes "h_hierholzer h g = (res, h')"
  shows "length h \<le> length h' \<and> (\<forall>a < length h. h' ! a = h ! a) \<and>
         (refs_ok h (g_adj_list g) \<longrightarrow>
            graph_of h' g = graph_of h g \<and> res = hierholzer (graph_of h g) \<and>
            fst (h_hierholzer h' g) = res \<and>
            (valid_graph (graph_of h g) \<and> 0 < num_edges (graph_of h g) \<longrightarrow>
               (\<exists>t. res = Inr t \<and> hd t = last t \<and>
                  undirected (tour_pairs t) = arcs (adj_list (graph_of h g)) \<and>
                  length t = num_edges (graph_of h g) + 1)))"
proof -
  from h_hierholzer_frame [OF assms] have len: "length h \<le> length h'"
    and same: "\<forall>a < length h. h' ! a = h ! a" by simp_all
  have rest: "graph_of h' g = graph_of h g \<and> res = hierholzer (graph_of h g) \<and>
      fst (h_hierholzer h' g) = res \<and>
      (valid_graph (graph_of h g) \<and> 0 < num_edges (graph_of h g) \<longrightarrow>
         (\<exists>t. res = Inr t \<and> hd t = last t \<and>
            undirected (tour_pairs t) = arcs (adj_list (graph_of h g)) \<and>
            length t = num_edges (graph_of h g) + 1))"
    if ok: "refs_ok h (g_adj_list g)"
  proof -
    let ?d = "g_adj_list g"
    from ok have bound: "\<forall>r \<in> set (map snd ?d). r < length h" by (simp add: refs_ok_def)
    with same have "\<forall>r \<in> set (map snd ?d). h' ! r = h ! r" by blast
    then have "abs_adj h' ?d = abs_adj h ?d" by (rule abs_adj_same)
    then have g: "graph_of h' g = graph_of h g" by (simp add: graph_of_def)
    have ok': "refs_ok h' ?d" using ok bound len by (auto simp: refs_ok_def)
    have first: "res = hierholzer (graph_of h g)"
      using hierholzer_lift [OF ok] assms by simp
    have second: "fst (h_hierholzer h' g) = res"
      using hierholzer_lift [OF ok'] g first by simp
    have "\<exists>t. res = Inr t \<and> hd t = last t \<and>
        undirected (tour_pairs t) = arcs (adj_list (graph_of h g)) \<and>
        length t = num_edges (graph_of h g) + 1"
      if v: "valid_graph (graph_of h g)" "0 < num_edges (graph_of h g)"
    proof -
      from hierholzer_run_correct [OF v] obtain t al' where
        "hierholzer_run (graph_of h g) = Inr (t, al')" "hd t = hd (vertices (graph_of h g))"
        "last t = hd (vertices (graph_of h g))"
        "undirected (tour_pairs t) = arcs (adj_list (graph_of h g))"
        "length t = num_edges (graph_of h g) + 1"
        by blast
      then show ?thesis using first by (simp add: hierholzer_def)
    qed
    with g first second show ?thesis by blast
  qed
  from len same rest show ?thesis by blast
qed

theorem hierholzer_leaves_graph_witness:
  "h_hierholzer tt_heap tt_obj =
     (Inr [''a'', ''c'', ''b'', ''a'', ''e'', ''d'', ''a''], tt_heap @ [[], [], [], [], []]) \<and>
   refs_ok tt_heap (g_adj_list tt_obj) \<and> valid_graph (graph_of tt_heap tt_obj) \<and>
   0 < num_edges (graph_of tt_heap tt_obj) \<and>
   graph_of (tt_heap @ [[], [], [], [], []]) tt_obj = graph_of tt_heap tt_obj \<and>
   fst (h_hierholzer (tt_heap @ [[], [], [], [], []]) tt_obj) =
     Inr [''a'', ''c'', ''b'', ''a'', ''e'', ''d'', ''a'']"
  using hierholzer_leaves_graph [OF tt_run] tt_run tt_refs_ok two_triangles_valid
  by (simp add: tt_graph_of two_triangles_edges)

text \<open>
  Not every input graph yields two tours: on the graph with one vertex and no edge, a
  valid input, both calls raise \<open>IndexError\<close> (and on a graph with a vertex of odd degree
  the walk dead-ends).
\<close>

theorem hierholzer_leaves_graph_counterexample:
  "valid_graph (graph_of [[]] sv_obj) \<and>
   h_hierholzer [[]] sv_obj = (Inl IndexError, [[], []]) \<and>
   h_hierholzer [[], []] sv_obj = (Inl IndexError, [[], [], []])"
  using sv_run sv_run_again single_vertex_valid by (simp add: sv_graph_of)

text \<open>
  C8. Where the adjacency structure is symmetric at the start, it is symmetric after
  every edge removal of the algorithm: for any vertices \<open>u\<close> and \<open>v\<close>, \<open>v\<close> is stored
  for \<open>u\<close> as often as \<open>u\<close> is stored for \<open>v\<close>. An edge removal is the pair of statements
  \<open>pop()\<close> and \<open>remove()\<close>, which takes both sides of the edge together; the structure
  changes in no other way.
\<close>

theorem symmetry_preserved:
  assumes "symmetric al" and "removals al al'"
  shows "\<forall>u v. count_list (nbrs al' u) v = count_list (nbrs al' v) u"
  using removals_symmetric [OF assms(2,1)] by (simp add: symmetric_def)

theorem symmetry_preserved_witness:
  "symmetric path_adj \<and> removals path_adj [(''a'', []), (''b'', [])] \<and>
   (\<forall>u v. count_list (nbrs [(''a'', []), (''b'', [])] u) v =
           count_list (nbrs [(''a'', []), (''b'', [])] v) u)"
  using symmetry_preserved [OF path_adj_symmetric path_adj_removal]
    path_adj_symmetric path_adj_removal
  by simp

text \<open>
  C9. Invoked on a vertex with no unused incident edge, \<open>hierholzer_tour\<close> raises an
  exception and returns no walk: \<open>IndexError\<close> from \<open>pop()\<close> on the empty list of a
  vertex of the dictionary, \<open>KeyError\<close> for a label the dictionary does not have.
\<close>

theorem hierholzer_tour_no_edge_raises:
  "nbrs al s = [] \<Longrightarrow>
   hierholzer_tour al s = Inl (if map_of al s = None then KeyError else IndexError)"
  by (auto simp: hierholzer_tour_def take_edge_def dict_get_def list_pop_def nbrs_def
      split: option.splits)

theorem hierholzer_tour_no_edge_raises_witness:
  "nbrs [(''a'', [])] ''a'' = [] \<and> hierholzer_tour [(''a'', [])] ''a'' = Inl IndexError"
  using hierholzer_tour_no_edge_raises [of "[(''a'', [])]" "''a''"]
  by (simp add: nbrs_def)

text \<open>
  C10 (amended). \<open>hierholzer\<close> starts at the first vertex of the graph's vertex list: for
  every connected graph with at least one edge in which every vertex has even degree, the
  tour returned begins and ends with \<open>g.vertices[0]\<close>. The graph is the only argument of
  \<open>hierholzer\<close>, so a caller has no way to choose another start.
\<close>

theorem hierholzer_starts_at_first_vertex:
  assumes "valid_graph g" and "0 < num_edges g"
  shows "vertices g \<noteq> [] \<and>
         (\<exists>t. hierholzer g = Inr t \<and> t \<noteq> [] \<and> hd t = vertices g ! 0 \<and>
              last t = vertices g ! 0)"
proof -
  from hierholzer_run_correct [OF assms] obtain t al' where
    run: "hierholzer_run g = Inr (t, al')" and
    t: "t \<noteq> []" "hd t = hd (vertices g)" "last t = hd (vertices g)"
    by blast
  from run have ne: "vertices g \<noteq> []"
    by (auto simp: hierholzer_run_def)
  then have "hd (vertices g) = vertices g ! 0" by (simp add: hd_conv_nth)
  with run t ne show ?thesis by (simp add: hierholzer_def)
qed

theorem hierholzer_starts_at_first_vertex_witness:
  "valid_graph two_triangles \<and> 0 < num_edges two_triangles \<and>
   vertices two_triangles ! 0 = ''a'' \<and>
   (\<exists>t. hierholzer two_triangles = Inr t \<and> t \<noteq> [] \<and> hd t = ''a'' \<and> last t = ''a'')"
proof -
  have pos: "0 < num_edges two_triangles" by (simp add: two_triangles_edges)
  have v0: "vertices two_triangles ! 0 = ''a''" by (simp add: two_triangles_def)
  from hierholzer_starts_at_first_vertex [OF two_triangles_valid pos] two_triangles_valid
    pos v0
  show ?thesis by simp
qed

text \<open>On the graph with the one vertex \<open>a\<close> and no edge no tour is returned, so none
  that starts at \<open>g.vertices[0]\<close>.\<close>

theorem hierholzer_starts_at_first_vertex_counterexample:
  "valid_graph single_vertex \<and> vertices single_vertex ! 0 = ''a'' \<and>
   hierholzer single_vertex = Inl IndexError"
  using single_vertex_valid single_vertex_raises by (simp add: single_vertex_def)

end
